theory Spec2Isabelle
  imports Main "HOL-Library.Word"
begin

section \<open>Domain types (include/types.hpp)\<close>

text \<open>
  \<open>Price\<close> and \<open>Quantity\<close> are \<open>int64_t\<close>. Signed overflow is undefined in C++, so the
  model uses mathematical integers and speaks about runs in which no signed overflow
  occurs: a value of the model is the value of the code as long as it is in the range of
  \<open>int64_t\<close>. The sums over several orders (a level's \<open>total_quantity\<close>, the volumes) are
  the ones that can leave it for orders with \<open>0 \<le> filled \<le> quantity\<close>; the last section
  states when they do not. \<open>OrderId\<close>, \<open>Timestamp\<close>, the statistics counters and \<open>size_t\<close> counters are
  unsigned 64-bit values and wrap around; \<open>user_id\<close> is a \<open>uint32_t\<close>.
\<close>

type_synonym Price = int
type_synonym Quantity = int
type_synonym OrderId = "64 word"
type_synonym Timestamp = "64 word"

datatype Side = BUY | SELL

datatype OrderType = MARKET | LIMIT

datatype OrderStatus = PENDING | PARTIAL | FILLED | CANCELLED

text \<open>The field \<open>id\<close> of the source is \<open>order_id\<close> here (\<open>id\<close> is the identity of HOL).\<close>

record Order =
  order_id :: OrderId
  price :: Price
  quantity :: Quantity
  filled :: Quantity
  initial_quantity :: Quantity
  timestamp :: Timestamp
  side :: Side
  type :: OrderType
  status :: OrderStatus
  user_id :: "32 word"

text \<open>The constructor \<open>Order(id, price, qty, ts, side, type, user)\<close>.\<close>

definition mk_order ::
  "OrderId \<Rightarrow> Price \<Rightarrow> Quantity \<Rightarrow> Timestamp \<Rightarrow> Side \<Rightarrow> OrderType \<Rightarrow> 32 word \<Rightarrow> Order" where
  "mk_order i p qty ts sd ty usr =
     \<lparr>order_id = i, price = p, quantity = qty, filled = 0,
      initial_quantity = qty, timestamp = ts, side = sd, type = ty,
      status = PENDING, user_id = usr\<rparr>"

definition remaining :: "Order \<Rightarrow> Quantity" where
  "remaining ord = quantity ord - filled ord"

record Trade =
  buy_order_id :: OrderId
  sell_order_id :: OrderId
  trade_price :: Price
  trade_quantity :: Quantity
  trade_timestamp :: Timestamp

record Tick =
  symbol :: string
  tick_price :: Price
  volume :: Quantity
  tick_timestamp :: Timestamp
  tick_side :: Side

section \<open>Memory: pointers to orders\<close>

text \<open>
  An \<open>Order*\<close> is an address: \<open>Slot p i\<close> is the \<open>i\<close>-th slot of the block with base
  pointer \<open>p\<close>. The memory maps every address to the order record stored there
  (whatever it holds before the first write).
\<close>

datatype addr = Slot nat nat
type_synonym memory = "addr \<Rightarrow> Order"

section \<open>The order arena (include/memory\_pool.hpp)\<close>

text \<open>
  \<open>blocks\<close> holds the base pointer of every block, in the order of \<open>blocks_\<close>. The host
  allocator \<open>std::aligned_alloc\<close> is taken to succeed, and the block it returns for the
  \<open>k\<close>-th request has base pointer \<open>k\<close> (distinct requests give disjoint blocks).
  \<open>BlockSize\<close> is the template parameter, passed explicitly.
\<close>

record MemoryPool =
  blocks :: "nat list"
  current_block :: nat
  current_index :: nat

definition allocate_block :: "MemoryPool \<Rightarrow> MemoryPool" where
  "allocate_block p =
     (let p1 = (if current_block p \<ge> length (blocks p)
                then p\<lparr>blocks := blocks p @ [length (blocks p)]\<rparr>
                else p)
      in p1\<lparr>current_block := length (blocks p1) - 1, current_index := 0\<rparr>)"

definition MemoryPool_init :: MemoryPool where
  "MemoryPool_init = allocate_block \<lparr>blocks = [], current_block = 0, current_index = 0\<rparr>"

definition allocate :: "nat \<Rightarrow> MemoryPool \<Rightarrow> addr \<times> MemoryPool" where
  "allocate BlockSize p =
     (let p1 = (if current_index p \<ge> BlockSize then allocate_block p else p)
      in (Slot (blocks p1 ! current_block p1) (current_index p1),
          p1\<lparr>current_index := current_index p1 + 1\<rparr>))"

definition reset :: "MemoryPool \<Rightarrow> MemoryPool" where
  "reset p = p\<lparr>current_block := 0, current_index := 0\<rparr>"

definition allocated_count :: "nat \<Rightarrow> MemoryPool \<Rightarrow> nat" where
  "allocated_count BlockSize p = current_block p * BlockSize + current_index p"

text \<open>A sequence of \<open>n\<close> calls of \<open>allocate()\<close>: the pointers returned, in order, and the pool.\<close>

fun allocate_n :: "nat \<Rightarrow> nat \<Rightarrow> MemoryPool \<Rightarrow> addr list \<times> MemoryPool" where
  "allocate_n BlockSize 0 p = ([], p)"
| "allocate_n BlockSize (Suc n) p =
     (let (a, p1) = allocate BlockSize p;
          (as, p2) = allocate_n BlockSize n p1
      in (a # as, p2))"

section \<open>The order book (include/order\_book.hpp, src/order\_book.cpp)\<close>

record PriceLevel =
  level_price :: Price
  orders :: "addr list"
  total_quantity :: Quantity

text \<open>
  A \<open>std::map\<close> is the list of its entries in iteration order: \<open>bids\<close> is ordered by
  \<open>std::greater\<close> (descending keys), \<open>asks\<close> ascending. \<open>total_trades\<close> is a \<open>size_t\<close>.
  The field \<open>trade_callback_\<close> is the argument \<open>cb\<close> of the operations below: \<open>None\<close>
  while no callback is set, and a callback acts on the state \<open>'e\<close> of its owner.
\<close>

record OrderBook =
  book_symbol :: string
  bids :: "(Price \<times> PriceLevel) list"
  asks :: "(Price \<times> PriceLevel) list"
  total_trades :: "64 word"

definition OrderBook_init :: "string \<Rightarrow> OrderBook" where
  "OrderBook_init nm = \<lparr>book_symbol = nm, bids = [], asks = [], total_trades = 0\<rparr>"

definition best_bid :: "OrderBook \<Rightarrow> Price" where
  "best_bid b = (if bids b = [] then 0 else fst (last (bids b)))"

definition best_ask :: "OrderBook \<Rightarrow> Price" where
  "best_ask b = (if asks b = [] then 0 else fst (hd (asks b)))"

definition bid_volume :: "OrderBook \<Rightarrow> Quantity" where
  "bid_volume b = fold (\<lambda>(p, level) vol. vol + total_quantity level) (bids b) 0"

definition ask_volume :: "OrderBook \<Rightarrow> Quantity" where
  "ask_volume b = fold (\<lambda>(p, level) vol. vol + total_quantity level) (asks b) 0"

text \<open>
  \<open>execute_trade\<close> builds the trade, hands it to the callback when one is set, and counts
  it. It acts on the trade counter of the book and on the state of the callback's owner.
\<close>

definition execute_trade ::
  "(Trade \<Rightarrow> 'e \<Rightarrow> 'e) option \<Rightarrow> Order \<Rightarrow> Order \<Rightarrow> Price \<Rightarrow> Quantity
     \<Rightarrow> 64 word \<times> 'e \<Rightarrow> 64 word \<times> 'e" where
  "execute_trade cb buy_order sell_order p qty = (\<lambda>(n, env).
     let trade = \<lparr>buy_order_id = order_id buy_order,
                  sell_order_id = order_id sell_order,
                  trade_price = p,
                  trade_quantity = qty,
                  trade_timestamp = max (timestamp buy_order) (timestamp sell_order)\<rparr>
     in (n + 1, case cb of None \<Rightarrow> env | Some f \<Rightarrow> f trade env))"

text \<open>
  The two branches of \<open>match_order\<close> (an incoming BUY against the asks, anything else
  against the bids) differ in the map they walk, in the price test and in the argument
  order of \<open>execute_trade\<close>; the parameter \<open>s\<close> is the side read at the top of
  \<open>match_order\<close>. The state of the inner loop is the memory, the level \<open>it->second\<close>, the
  trade counter and the callback owner's state.

  \<open>fill_front\<close> is one pass through the body of the inner \<open>while\<close>.
\<close>

definition level_cond :: "addr \<Rightarrow> memory \<times> PriceLevel \<times> 64 word \<times> 'e \<Rightarrow> bool" where
  "level_cond a = (\<lambda>(h, level, n, env).
     orders level \<noteq> [] \<and> filled (h a) < quantity (h a))"

definition fill_front ::
  "(Trade \<Rightarrow> 'e \<Rightarrow> 'e) option \<Rightarrow> Side \<Rightarrow> addr
     \<Rightarrow> memory \<times> PriceLevel \<times> 64 word \<times> 'e \<Rightarrow> memory \<times> PriceLevel \<times> 64 word \<times> 'e" where
  "fill_front cb s a = (\<lambda>(h, level, n, env).
     let contra_order = hd (orders level);
         trade_qty = min (quantity (h a) - filled (h a))
                         (quantity (h contra_order) - filled (h contra_order));
         (n1, env1) = (if s = BUY
                       then execute_trade cb (h a) (h contra_order) (level_price level) trade_qty (n, env)
                       else execute_trade cb (h contra_order) (h a) (level_price level) trade_qty (n, env));
         h1 = h(a := (h a)\<lparr>filled := filled (h a) + trade_qty\<rparr>);
         h2 = h1(contra_order := (h1 contra_order)\<lparr>filled := filled (h1 contra_order) + trade_qty\<rparr>);
         level1 = level\<lparr>total_quantity := total_quantity level - trade_qty\<rparr>
     in if filled (h2 contra_order) \<ge> quantity (h2 contra_order)
        then (h2(contra_order := (h2 contra_order)\<lparr>status := FILLED\<rparr>),
              level1\<lparr>orders := tl (orders level1)\<rparr>, n1, env1)
        else (h2(contra_order := (h2 contra_order)\<lparr>status := PARTIAL\<rparr>),
              level1, n1, env1))"

text \<open>
  After one pass the head of the level has been popped or the incoming order is filled:
  this is why the inner loop ends.
\<close>

lemma fill_front_progress:
  assumes "level_cond a (h, level, n, env)"
    and "fill_front cb s a (h, level, n, env) = (h', level', n', env')"
  shows "(length (orders level') < length (orders level))
         \<or> (orders level' = orders level \<and> \<not> filled (h' a) < quantity (h' a))"
  using assms
  by (cases "orders level")
     (auto simp: level_cond_def fill_front_def Let_def execute_trade_def
           split: if_splits prod.splits)

function match_level ::
  "(Trade \<Rightarrow> 'e \<Rightarrow> 'e) option \<Rightarrow> Side \<Rightarrow> addr
     \<Rightarrow> memory \<times> PriceLevel \<times> 64 word \<times> 'e \<Rightarrow> memory \<times> PriceLevel \<times> 64 word \<times> 'e" where
  "match_level cb s a st =
     (if level_cond a st then match_level cb s a (fill_front cb s a st) else st)"
  by pat_completeness auto
termination
proof (relation "measure (\<lambda>(cb, s, a, (h, level, n, env)).
         2 * length (orders level) + (if filled (h a) < quantity (h a) then 1 else 0))")
  show "wf (measure (\<lambda>(cb :: (Trade \<Rightarrow> 'e \<Rightarrow> 'e) option, s :: Side, a :: addr,
         (h :: memory, level :: PriceLevel, n :: 64 word, env :: 'e)).
         2 * length (orders level) + (if filled (h a) < quantity (h a) then 1 else 0)))"
    by simp
next
  fix cb :: "(Trade \<Rightarrow> 'e \<Rightarrow> 'e) option" and s :: Side and a :: addr
    and st :: "memory \<times> PriceLevel \<times> 64 word \<times> 'e"
  assume c: "level_cond a st"
  obtain h level n env where st: "st = (h, level, n, env)" by (cases st)
  obtain h' level' n' env' where f: "fill_front cb s a (h, level, n, env) = (h', level', n', env')"
    by (cases "fill_front cb s a (h, level, n, env)")
  from c st have r: "filled (h a) < quantity (h a)" by (simp add: level_cond_def)
  from fill_front_progress [OF c [unfolded st] f] r
  show "((cb, s, a, fill_front cb s a st), (cb, s, a, st))
        \<in> measure (\<lambda>(cb, s, a, (h, level, n, env)).
             2 * length (orders level) + (if filled (h a) < quantity (h a) then 1 else 0))"
    by (auto simp: st f)
qed

declare match_level.simps [simp del]

lemma match_level_rule:
  assumes "Inv st"
    and "\<And>st. Inv st \<Longrightarrow> level_cond a st \<Longrightarrow> Inv (fill_front cb s a st)"
  shows "Inv (match_level cb s a st)"
  using assms
proof (induction cb s a st rule: match_level.induct)
  case (1 cb s a st)
  show ?case
  proof (cases "level_cond a st")
    case True
    from "1.prems"(2) [OF "1.prems"(1) True] have "Inv (fill_front cb s a st)" .
    from "1.IH" [OF True this "1.prems"(2)]
    have "Inv (match_level cb s a (fill_front cb s a st))" .
    with True show ?thesis by (simp add: match_level.simps [of cb s a st])
  next
    case False
    with "1.prems"(1) show ?thesis by (simp add: match_level.simps [of cb s a st])
  qed
qed

lemma match_level_exit: "\<not> level_cond a (match_level cb s a st)"
proof (induction cb s a st rule: match_level.induct)
  case (1 cb s a st)
  then show ?case by (cases "level_cond a st") (simp_all add: match_level.simps [of cb s a st])
qed

text \<open>
  The outer loop walks the levels of one side from \<open>begin()\<close>. \<open>price_stop\<close> is the
  \<open>break\<close> of a LIMIT order at an incompatible price; \<open>sweep_level\<close> is the rest of the
  body: the inner loop on the first level, which is erased when its queue is empty.
\<close>

definition side_cond :: "addr \<Rightarrow> memory \<times> (Price \<times> PriceLevel) list \<times> 64 word \<times> 'e \<Rightarrow> bool" where
  "side_cond a = (\<lambda>(h, levels, n, env).
     filled (h a) < quantity (h a) \<and> levels \<noteq> [])"

definition price_stop ::
  "Side \<Rightarrow> addr \<Rightarrow> memory \<times> (Price \<times> PriceLevel) list \<times> 64 word \<times> 'e \<Rightarrow> bool" where
  "price_stop s a = (\<lambda>(h, levels, n, env).
     type (h a) = LIMIT \<and>
     (if s = BUY then price (h a) < level_price (snd (hd levels))
      else price (h a) > level_price (snd (hd levels))))"

definition sweep_level ::
  "(Trade \<Rightarrow> 'e \<Rightarrow> 'e) option \<Rightarrow> Side \<Rightarrow> addr
     \<Rightarrow> memory \<times> (Price \<times> PriceLevel) list \<times> 64 word \<times> 'e
     \<Rightarrow> memory \<times> (Price \<times> PriceLevel) list \<times> 64 word \<times> 'e" where
  "sweep_level cb s a = (\<lambda>(h, levels, n, env).
     let (h1, level1, n1, env1) = match_level cb s a (h, snd (hd levels), n, env)
     in (h1,
         if orders level1 = [] then tl levels else (fst (hd levels), level1) # tl levels,
         n1, env1))"

lemma sweep_level_progress:
  assumes "side_cond a (h, levels, n, env)"
    and "sweep_level cb s a (h, levels, n, env) = (h', levels', n', env')"
  shows "length levels' < length levels
         \<or> (length levels' = length levels \<and> \<not> filled (h' a) < quantity (h' a))"
proof -
  obtain h1 level1 n1 env1
    where m: "match_level cb s a (h, snd (hd levels), n, env) = (h1, level1, n1, env1)"
    by (cases "match_level cb s a (h, snd (hd levels), n, env)")
  from match_level_exit [of a cb s "(h, snd (hd levels), n, env)"] m
  have e: "orders level1 = [] \<or> \<not> filled (h1 a) < quantity (h1 a)"
    by (simp add: level_cond_def)
  from assms(1) have ne: "levels \<noteq> []" by (simp add: side_cond_def)
  from assms(2) m e ne show ?thesis
    by (cases levels) (auto simp: sweep_level_def split: if_splits)
qed

function match_side ::
  "(Trade \<Rightarrow> 'e \<Rightarrow> 'e) option \<Rightarrow> Side \<Rightarrow> addr
     \<Rightarrow> memory \<times> (Price \<times> PriceLevel) list \<times> 64 word \<times> 'e
     \<Rightarrow> memory \<times> (Price \<times> PriceLevel) list \<times> 64 word \<times> 'e" where
  "match_side cb s a st =
     (if side_cond a st
      then (if price_stop s a st then st else match_side cb s a (sweep_level cb s a st))
      else st)"
  by pat_completeness auto
termination
proof (relation "measure (\<lambda>(cb, s, a, (h, levels, n, env)).
         2 * length levels + (if filled (h a) < quantity (h a) then 1 else 0))")
  show "wf (measure (\<lambda>(cb :: (Trade \<Rightarrow> 'e \<Rightarrow> 'e) option, s :: Side, a :: addr,
         (h :: memory, levels :: (Price \<times> PriceLevel) list, n :: 64 word, env :: 'e)).
         2 * length levels + (if filled (h a) < quantity (h a) then 1 else 0)))"
    by simp
next
  fix cb :: "(Trade \<Rightarrow> 'e \<Rightarrow> 'e) option" and s :: Side and a :: addr
    and st :: "memory \<times> (Price \<times> PriceLevel) list \<times> 64 word \<times> 'e"
  assume c: "side_cond a st"
  obtain h levels n env where st: "st = (h, levels, n, env)" by (cases st)
  obtain h' levels' n' env'
    where f: "sweep_level cb s a (h, levels, n, env) = (h', levels', n', env')"
    by (cases "sweep_level cb s a (h, levels, n, env)")
  from c st have r: "filled (h a) < quantity (h a)" by (simp add: side_cond_def)
  from sweep_level_progress [OF c [unfolded st] f] r
  show "((cb, s, a, sweep_level cb s a st), (cb, s, a, st))
        \<in> measure (\<lambda>(cb, s, a, (h, levels, n, env)).
             2 * length levels + (if filled (h a) < quantity (h a) then 1 else 0))"
    by (auto simp: st f)
qed

declare match_side.simps [simp del]

lemma match_side_rule:
  assumes "Inv st"
    and "\<And>st. Inv st \<Longrightarrow> side_cond a st \<Longrightarrow> \<not> price_stop s a st \<Longrightarrow> Inv (sweep_level cb s a st)"
  shows "Inv (match_side cb s a st)"
  using assms
proof (induction cb s a st rule: match_side.induct)
  case (1 cb s a st)
  show ?case
  proof (cases "side_cond a st \<and> \<not> price_stop s a st")
    case True
    then have c: "side_cond a st" and p: "\<not> price_stop s a st" by simp_all
    from "1.prems"(2) [OF "1.prems"(1) c p] have "Inv (sweep_level cb s a st)" .
    from "1.IH" [OF c p this "1.prems"(2)]
    have "Inv (match_side cb s a (sweep_level cb s a st))" .
    with c p show ?thesis by (simp add: match_side.simps [of cb s a st])
  next
    case False
    with "1.prems"(1) show ?thesis by (auto simp add: match_side.simps [of cb s a st])
  qed
qed

lemma match_side_exit:
  "\<not> side_cond a (match_side cb s a st) \<or> price_stop s a (match_side cb s a st)"
proof (induction cb s a st rule: match_side.induct)
  case (1 cb s a st)
  then show ?case
    by (cases "side_cond a st"; cases "price_stop s a st")
       (simp_all add: match_side.simps [of cb s a st])
qed

text \<open>\<open>match_order\<close>: the loop on the opposite side, then the status of the incoming order.\<close>

definition match_order ::
  "(Trade \<Rightarrow> 'e \<Rightarrow> 'e) option \<Rightarrow> addr \<Rightarrow> memory \<times> OrderBook \<times> 'e \<Rightarrow> memory \<times> OrderBook \<times> 'e" where
  "match_order cb a = (\<lambda>(h, b, env).
     let (h1, b1, env1) =
        (if side (h a) = BUY
         then let (h', levels', n', env') = match_side cb BUY a (h, asks b, total_trades b, env)
              in (h', b\<lparr>asks := levels', total_trades := n'\<rparr>, env')
         else let (h', levels', n', env') = match_side cb SELL a (h, bids b, total_trades b, env)
              in (h', b\<lparr>bids := levels', total_trades := n'\<rparr>, env'))
     in (h1(a := (h1 a)\<lparr>status :=
               (if filled (h1 a) \<ge> quantity (h1 a) then FILLED
                else if filled (h1 a) > 0 then PARTIAL else PENDING)\<rparr>),
         b1, env1))"

definition process_market_order ::
  "(Trade \<Rightarrow> 'e \<Rightarrow> 'e) option \<Rightarrow> addr \<Rightarrow> memory \<times> OrderBook \<times> 'e \<Rightarrow> memory \<times> OrderBook \<times> 'e" where
  "process_market_order cb a st =
     (let (h1, b1, env1) = match_order cb a st
      in (if status (h1 a) \<noteq> FILLED then h1(a := (h1 a)\<lparr>status := CANCELLED\<rparr>) else h1,
          b1, env1))"

text \<open>
  \<open>level_at prec p f m\<close> is \<open>f\<close> applied to \<open>m[p]\<close>: the entry with key \<open>p\<close>, inserted
  at its place in the order \<open>prec\<close> with a value-initialised level when it is absent.
  \<open>rest_order\<close> is what \<open>add_order\<close> then does to that level.
\<close>

definition default_level :: PriceLevel where
  "default_level = \<lparr>level_price = 0, orders = [], total_quantity = 0\<rparr>"

fun level_at ::
  "(Price \<Rightarrow> Price \<Rightarrow> bool) \<Rightarrow> Price \<Rightarrow> (PriceLevel \<Rightarrow> PriceLevel)
     \<Rightarrow> (Price \<times> PriceLevel) list \<Rightarrow> (Price \<times> PriceLevel) list" where
  "level_at prec p f [] = [(p, f default_level)]"
| "level_at prec p f ((k, level) # rest) =
     (if k = p then (k, f level) # rest
      else if prec p k then (p, f default_level) # (k, level) # rest
      else (k, level) # level_at prec p f rest)"

definition rest_order :: "addr \<Rightarrow> memory \<Rightarrow> PriceLevel \<Rightarrow> PriceLevel" where
  "rest_order a h level =
     level\<lparr>level_price := price (h a),
           orders := orders level @ [a],
           total_quantity := total_quantity level + (quantity (h a) - filled (h a))\<rparr>"

definition add_order ::
  "(Trade \<Rightarrow> 'e \<Rightarrow> 'e) option \<Rightarrow> addr \<Rightarrow> memory \<times> OrderBook \<times> 'e \<Rightarrow> memory \<times> OrderBook \<times> 'e" where
  "add_order cb a = (\<lambda>(h, b, env).
     if type (h a) = MARKET then process_market_order cb a (h, b, env)
     else
       let (h1, b1, env1) = match_order cb a (h, b, env)
       in if status (h1 a) \<noteq> FILLED
          then (if side (h1 a) = BUY
                then (h1, b1\<lparr>bids := level_at (>) (price (h1 a)) (rest_order a h1) (bids b1)\<rparr>, env1)
                else (h1, b1\<lparr>asks := level_at (<) (price (h1 a)) (rest_order a h1) (asks b1)\<rparr>, env1))
          else (h1, b1, env1))"

text \<open>The body of \<open>cancel_order\<close> is empty in the source.\<close>

definition cancel_order :: "OrderId \<Rightarrow> memory \<times> OrderBook \<times> 'e \<Rightarrow> memory \<times> OrderBook \<times> 'e" where
  "cancel_order i st = st"

text \<open>A callback that records the trades it is handed, oldest first.\<close>

definition record_trade :: "Trade \<Rightarrow> Trade list \<Rightarrow> Trade list" where
  "record_trade t ts = ts @ [t]"

section \<open>The tick engine (include/tick\_engine.hpp, src/tick\_engine.cpp)\<close>

record Stats =
  ticks_processed :: "64 word"
  orders_submitted :: "64 word"
  trades_executed :: "64 word"
  total_latency_ns :: "64 word"

text \<open>
  A strategy is an object with a state \<open>'s\<close>. Under the strategy contract its \<open>on_tick\<close>
  acts on the engine through \<open>submit_order\<close> only, and its \<open>on_trade\<close> acts on its own
  state only. A call of \<open>on_tick\<close> is therefore the sequence of its submissions:
  \<open>Submit x ord k\<close> leaves the object in state \<open>x\<close>, calls \<open>engine->submit_order(ord)\<close> and
  goes on as \<open>k y\<close>, where \<open>y\<close> is the state of the object when the call returns (the
  trades of the submission have reached its \<open>on_trade\<close> by then); \<open>Done x\<close> returns and
  leaves the object in state \<open>x\<close>.
\<close>

datatype 's prog = Done 's | Submit 's Order "'s \<Rightarrow> 's prog"

record 's Strategy =
  on_tick :: "Tick \<Rightarrow> 's \<Rightarrow> 's prog"
  on_trade :: "Trade \<Rightarrow> 's \<Rightarrow> 's"

text \<open>
  \<open>order_books\<close> lists the entries of the \<open>std::unordered_map\<close> in the order of their
  insertion. Which entry \<open>begin()\<close> yields is left to the standard library: it is the
  parameter \<open>first\<close>, a function of the keys inserted so far that gives a position in
  that list (position 0 when it points outside). \<open>pool_memory\<close> is the storage of the
  arena. Two fields are not in the source: \<open>clock_reads\<close> counts the calls of
  \<open>high_resolution_clock::now()\<close>, whose \<open>k\<close>-th reading is \<open>clk k\<close> nanoseconds, and
  \<open>trade_log\<close> records the trades handed to \<open>on_trade\<close>, oldest first.
\<close>

record 's TickEngine =
  order_books :: "(string \<times> OrderBook) list"
  strategies :: "('s Strategy \<times> 's) list"
  order_pool :: MemoryPool
  pool_memory :: memory
  next_order_id :: OrderId
  current_time :: Timestamp
  stats :: Stats
  clock_reads :: nat
  trade_log :: "Trade list"

definition BlockSize :: nat where
  "BlockSize = 4096"

definition TickEngine_init :: "memory \<Rightarrow> 's TickEngine" where
  "TickEngine_init m =
     \<lparr>order_books = [], strategies = [], order_pool = MemoryPool_init, pool_memory = m,
      next_order_id = 1, current_time = 0,
      stats = \<lparr>ticks_processed = 0, orders_submitted = 0, trades_executed = 0,
               total_latency_ns = 0\<rparr>,
      clock_reads = 0, trade_log = []\<rparr>"

definition add_strategy :: "'s Strategy \<times> 's \<Rightarrow> 's TickEngine \<Rightarrow> 's TickEngine" where
  "add_strategy strategy eng = eng\<lparr>strategies := strategies eng @ [strategy]\<rparr>"

definition engine_on_trade :: "Trade \<Rightarrow> 's TickEngine \<Rightarrow> 's TickEngine" where
  "engine_on_trade trade eng =
     eng\<lparr>stats := (stats eng)\<lparr>trades_executed := trades_executed (stats eng) + 1\<rparr>,
         strategies := map (\<lambda>(strategy, x). (strategy, on_trade strategy trade x)) (strategies eng),
         trade_log := trade_log eng @ [trade]\<rparr>"

definition begin_index :: "(string list \<Rightarrow> nat) \<Rightarrow> (string \<times> OrderBook) list \<Rightarrow> nat" where
  "begin_index first books =
     (let i = first (map fst books) in if i < length books then i else 0)"

definition submit_order ::
  "(string list \<Rightarrow> nat) \<Rightarrow> Order \<Rightarrow> 's TickEngine \<Rightarrow> 's TickEngine" where
  "submit_order first order_template eng =
     (let (a, pool1) = allocate BlockSize (order_pool eng);
          h1 = (pool_memory eng)(a := order_template);
          h2 = h1(a := (h1 a)\<lparr>order_id := next_order_id eng\<rparr>);
          h3 = h2(a := (h2 a)\<lparr>timestamp := current_time eng\<rparr>);
          eng1 = eng\<lparr>order_pool := pool1, pool_memory := h3,
                     next_order_id := next_order_id eng + 1\<rparr>
      in if order_books eng1 \<noteq> []
         then let i = begin_index first (order_books eng1);
                  (h', b', eng2) = add_order (Some engine_on_trade) a
                                     (pool_memory eng1, snd (order_books eng1 ! i), eng1)
              in eng2\<lparr>pool_memory := h',
                      order_books := (order_books eng2)[i := (fst (order_books eng2 ! i), b')],
                      stats := (stats eng2)\<lparr>orders_submitted := orders_submitted (stats eng2) + 1\<rparr>\<rparr>
         else eng1)"

definition set_state :: "nat \<Rightarrow> 's \<Rightarrow> 's TickEngine \<Rightarrow> 's TickEngine" where
  "set_state i x eng = eng\<lparr>strategies := (strategies eng)[i := (fst (strategies eng ! i), x)]\<rparr>"

primrec run_prog ::
  "(string list \<Rightarrow> nat) \<Rightarrow> nat \<Rightarrow> 's prog \<Rightarrow> 's TickEngine \<Rightarrow> 's TickEngine" where
  "run_prog first i (Done x) = (\<lambda>eng. set_state i x eng)"
| "run_prog first i (Submit x ord k) = (\<lambda>eng.
     let eng1 = submit_order first ord (set_state i x eng)
     in run_prog first i (k (snd (strategies eng1 ! i))) eng1)"

text \<open>The call \<open>strategy->on_tick(tick, this)\<close> for the \<open>i\<close>-th strategy.\<close>

definition notify ::
  "(string list \<Rightarrow> nat) \<Rightarrow> Tick \<Rightarrow> nat \<Rightarrow> 's TickEngine \<Rightarrow> 's TickEngine" where
  "notify first tick i eng =
     (let (strategy, x) = strategies eng ! i
      in run_prog first i (on_tick strategy tick x) eng)"

definition process_tick ::
  "(string list \<Rightarrow> nat) \<Rightarrow> (nat \<Rightarrow> int) \<Rightarrow> Tick \<Rightarrow> 's TickEngine \<Rightarrow> 's TickEngine" where
  "process_tick first clk tick eng =
     (let start = clk (clock_reads eng);
          eng1 = eng\<lparr>clock_reads := clock_reads eng + 1, current_time := tick_timestamp tick\<rparr>;
          eng2 = (if symbol tick \<in> set (map fst (order_books eng1)) then eng1
                  else eng1\<lparr>order_books := order_books eng1
                                @ [(symbol tick, OrderBook_init (symbol tick))]\<rparr>);
          eng3 = fold (notify first tick) [0..<length (strategies eng2)] eng2;
          finish = clk (clock_reads eng3);
          latency = finish - start
      in eng3\<lparr>clock_reads := clock_reads eng3 + 1,
              stats := (stats eng3)\<lparr>ticks_processed := ticks_processed (stats eng3) + 1,
                                    total_latency_ns := total_latency_ns (stats eng3)
                                                        + word_of_int latency\<rparr>\<rparr>)"

definition run_backtest ::
  "(string list \<Rightarrow> nat) \<Rightarrow> (nat \<Rightarrow> int) \<Rightarrow> Tick list \<Rightarrow> 's TickEngine \<Rightarrow> 's TickEngine" where
  "run_backtest first clk ticks eng = fold (process_tick first clk) ticks eng"

definition get_order_book :: "string \<Rightarrow> 's TickEngine \<Rightarrow> OrderBook option" where
  "get_order_book nm eng = map_of (order_books eng) nm"

section \<open>Scenarios\<close>

text \<open>
  The scenario of \<open>test_fifo_ordering\<close>: three SELL limit orders at one price, then a
  MARKET BUY. The orders are objects at four distinct addresses; \<open>m\<close> is the memory
  before they are written.
\<close>

definition fifo_scenario :: "memory \<Rightarrow> memory \<times> OrderBook \<times> Trade list" where
  "fifo_scenario m =
     (let cb = Some record_trade;
          (h1, b1, e1) = add_order cb (Slot 0 1)
             (m((Slot 0 1) := mk_order 1 1000000 100 1000 SELL LIMIT 1), OrderBook_init ''TEST'', []);
          (h2, b2, e2) = add_order cb (Slot 0 2)
             (h1((Slot 0 2) := mk_order 2 1000000 100 2000 SELL LIMIT 2), b1, e1);
          (h3, b3, e3) = add_order cb (Slot 0 3)
             (h2((Slot 0 3) := mk_order 3 1000000 100 3000 SELL LIMIT 3), b2, e2)
      in add_order cb (Slot 0 4) (h3((Slot 0 4) := mk_order 4 0 250 4000 BUY MARKET 4), b3, e3))"

text \<open>Two BUY limit orders resting at different prices.\<close>

definition two_bids :: "memory \<Rightarrow> memory \<times> OrderBook \<times> Trade list" where
  "two_bids m =
     (let cb = Some record_trade;
          (h1, b1, e1) = add_order cb (Slot 0 1)
             (m((Slot 0 1) := mk_order 1 1000000 10 1000 BUY LIMIT 1), OrderBook_init ''TEST'', [])
      in add_order cb (Slot 0 2) (h1((Slot 0 2) := mk_order 2 990000 10 2000 BUY LIMIT 2), b1, e1))"

lemmas book_eval =
  mk_order_def add_order_def process_market_order_def match_order_def
  match_side.simps match_level.simps side_cond_def price_stop_def sweep_level_def
  level_cond_def fill_front_def execute_trade_def record_trade_def OrderBook_init_def
  rest_order_def default_level_def Let_def

section \<open>The arena hands out a slot twice\<close>

lemma MemoryPool_init_eq:
  "MemoryPool_init = \<lparr>blocks = [0], current_block = 0, current_index = 0\<rparr>"
  by (simp add: MemoryPool_init_def allocate_block_def)

lemma allocate_in_block:
  "k < bs \<Longrightarrow> allocate bs \<lparr>blocks = [0], current_block = 0, current_index = k\<rparr>
     = (Slot 0 k, \<lparr>blocks = [0], current_block = 0, current_index = Suc k\<rparr>)"
  by (simp add: allocate_def)

text \<open>
  When the block is full, \<open>allocate_block\<close> finds \<open>current_block_ < blocks_.size()\<close>, adds
  no block and rewinds the index: the slot returned is the first slot of the same block.
\<close>

lemma allocate_full_block:
  "allocate bs \<lparr>blocks = [0], current_block = 0, current_index = bs\<rparr>
     = (Slot 0 0, \<lparr>blocks = [0], current_block = 0, current_index = Suc 0\<rparr>)"
  by (simp add: allocate_def allocate_block_def)

lemma allocate_n_in_block:
  "k + n \<le> bs \<Longrightarrow>
   allocate_n bs n \<lparr>blocks = [0], current_block = 0, current_index = k\<rparr>
     = (map (Slot 0) [k..<k + n],
        \<lparr>blocks = [0], current_block = 0, current_index = k + n\<rparr>)"
proof (induction n arbitrary: k)
  case 0
  then show ?case by simp
next
  case (Suc n)
  then have "k < bs" and "Suc k + n \<le> bs" by simp_all
  with Suc.IH [of "Suc k"] show ?case
    by (simp add: allocate_in_block upt_conv_Cons)
qed

lemma allocate_n_snoc:
  "allocate_n bs (Suc n) p =
     (let (as, p1) = allocate_n bs n p; (a, p2) = allocate bs p1 in (as @ [a], p2))"
  by (induction n arbitrary: p) (simp_all add: split_def Let_def)

lemma allocate_n_wraps:
  "0 < bs \<Longrightarrow> allocate_n bs (Suc bs) MemoryPool_init
     = (map (Slot 0) [0..<bs] @ [Slot 0 0],
        \<lparr>blocks = [0], current_block = 0, current_index = Suc 0\<rparr>)"
  using allocate_n_in_block [of 0 bs bs]
  by (simp add: allocate_n_snoc MemoryPool_init_eq allocate_full_block del: allocate_n.simps)

text \<open>
  C1. With the default \<open>BlockSize = 4096\<close>, the 4097th call of \<open>allocate()\<close> on a new pool
  returns the slot that the first call returned; the pool still has one block, and
  \<open>allocated_count()\<close> is 1 after 4097 calls.
\<close>

theorem pool_reuses_first_slot:
  "(let (ptrs, p) = allocate_n 4096 4097 MemoryPool_init
    in length ptrs = 4097 \<and> ptrs ! 4096 = ptrs ! 0 \<and> \<not> distinct ptrs
       \<and> length (blocks p) = 1 \<and> allocated_count 4096 p = 1)"
proof -
  have e: "allocate_n 4096 (Suc 4096) MemoryPool_init
     = (map (Slot 0) [0..<4096] @ [Slot 0 0],
        \<lparr>blocks = [0], current_block = 0, current_index = Suc 0\<rparr>)"
    by (rule allocate_n_wraps) simp
  have s: "(4097::nat) = Suc 4096" by simp
  have n: "(map (Slot 0) [0..<4096] @ [Slot 0 0]) ! 4096 = Slot 0 0"
    by (simp add: nth_append)
  have z: "(map (Slot 0) [0..<4096] @ [Slot 0 0]) ! 0 = Slot 0 0"
    by (simp add: nth_append)
  have d: "Slot 0 0 \<in> set (map (Slot 0) [0..<4096])"
    by (simp add: image_iff)
  show ?thesis unfolding s e using n z d
    by (simp add: allocated_count_def del: upt_Suc map_append)
qed

section \<open>Best prices\<close>

text \<open>
  C3. With bids resting at 1000000 and at 990000, \<open>best_bid()\<close> is 990000, the lowest
  bid: \<open>rbegin()\<close> of a map in descending order is its smallest key. The matching loop
  takes \<open>begin()\<close> as the best bid: a SELL at 990000 trades with the bid at 1000000.
\<close>

theorem best_bid_lowest:
  "(case two_bids m of (h, b, trades) \<Rightarrow>
      map fst (bids b) = [1000000, 990000]
      \<and> trades = []
      \<and> best_bid b = 990000
      \<and> (case add_order (Some record_trade) (Slot 0 3)
                 (h((Slot 0 3) := mk_order 3 990000 10 3000 SELL LIMIT 3), b, trades)
          of (h', b', trades') \<Rightarrow>
               map trade_price trades' = [1000000] \<and> map buy_order_id trades' = [1]))"
  by (simp add: two_bids_def best_bid_def book_eval)

section \<open>FIFO at one level\<close>

text \<open>
  C9. From an empty book, after three SELL limit orders at 1000000 of quantity 100 with
  timestamps 1000, 2000 and 3000, a MARKET BUY of 250 gives exactly three trades of
  quantities 100, 100 and 50, against the orders in their order of arrival; the third
  order stays in the book with \<open>filled = 50\<close> and status PARTIAL.
\<close>

theorem fifo_at_one_level:
  "(case fifo_scenario m of (h, b, trades) \<Rightarrow>
      map trade_quantity trades = [100, 100, 50]
      \<and> map sell_order_id trades = [1, 2, 3]
      \<and> map buy_order_id trades = [4, 4, 4]
      \<and> total_trades b = 3
      \<and> filled (h (Slot 0 3)) = 50 \<and> status (h (Slot 0 3)) = PARTIAL
      \<and> timestamp (h (Slot 0 3)) = 3000
      \<and> status (h (Slot 0 1)) = FILLED \<and> status (h (Slot 0 2)) = FILLED
      \<and> asks b = [(1000000, \<lparr>level_price = 1000000, orders = [(Slot 0 3)], total_quantity = 50\<rparr>)]
      \<and> bids b = [])"
  by (simp add: fifo_scenario_def book_eval)

section \<open>Trades and the callback\<close>

text \<open>
  The memory and the book after an operation do not depend on the callback: the callback
  owner's state is the state before, with the trades of the operation delivered in order.
\<close>

definition deliver :: "(Trade \<Rightarrow> 'e \<Rightarrow> 'e) option \<Rightarrow> Trade list \<Rightarrow> 'e \<Rightarrow> 'e" where
  "deliver cb ts env = (case cb of None \<Rightarrow> env | Some f \<Rightarrow> fold f ts env)"

definition relay ::
  "(Trade \<Rightarrow> 'e \<Rightarrow> 'e) option \<Rightarrow> 'e \<Rightarrow> 'a \<times> 'b \<times> 'c \<times> Trade list \<Rightarrow> 'a \<times> 'b \<times> 'c \<times> 'e" where
  "relay cb env = (\<lambda>(h, x, n, ts). (h, x, n, deliver cb ts env))"

lemma deliver_snoc:
  "(case cb of None \<Rightarrow> deliver cb ts env | Some f \<Rightarrow> f t (deliver cb ts env))
     = deliver cb (ts @ [t]) env"
  by (simp add: deliver_def split: option.splits)

lemma execute_trade_relay:
  "execute_trade cb bo so p q (n, deliver cb ts env)
     = (case execute_trade (Some record_trade) bo so p q (n, ts) of
          (n', ts') \<Rightarrow> (n', deliver cb ts' env))"
  by (simp add: execute_trade_def record_trade_def deliver_def split: option.splits)

lemma level_cond_relay [simp]: "level_cond a (relay cb env st) = level_cond a st"
  by (cases st) (simp add: level_cond_def relay_def)

lemma fill_front_relay:
  "fill_front cb s a (relay cb env st) = relay cb env (fill_front (Some record_trade) s a st)"
  by (cases st)
     (simp add: fill_front_def relay_def execute_trade_relay Let_def split: prod.splits)

lemma match_level_relay:
  "match_level cb s a (relay cb env st) = relay cb env (match_level (Some record_trade) s a st)"
proof (induction "Some record_trade" s a st rule: match_level.induct)
  case (1 s a st)
  show ?case
  proof (cases "level_cond a st")
    case True
    with 1 show ?thesis
      by (simp add: match_level.simps [of _ s a st]
            match_level.simps [of _ s a "relay cb env st"] fill_front_relay)
  next
    case False
    then show ?thesis
      by (simp add: match_level.simps [of _ s a st]
            match_level.simps [of _ s a "relay cb env st"])
  qed
qed

lemma side_cond_relay [simp]: "side_cond a (relay cb env st) = side_cond a st"
  by (cases st) (simp add: side_cond_def relay_def)

lemma price_stop_relay [simp]: "price_stop s a (relay cb env st) = price_stop s a st"
  by (cases st) (simp add: price_stop_def relay_def)

lemma sweep_level_relay:
  "sweep_level cb s a (relay cb env st) = relay cb env (sweep_level (Some record_trade) s a st)"
proof -
  obtain h levels n ts where st: "st = (h, levels, n, ts)" by (cases st)
  have r: "(h, snd (hd levels), n, deliver cb ts env) = relay cb env (h, snd (hd levels), n, ts)"
    by (simp add: relay_def)
  show ?thesis
    unfolding st sweep_level_def
    apply (simp add: relay_def [of cb env])
    apply (simp only: r match_level_relay)
    apply (simp add: relay_def split: prod.splits)
    done
qed

lemma match_side_relay:
  "match_side cb s a (relay cb env st) = relay cb env (match_side (Some record_trade) s a st)"
proof (induction "Some record_trade" s a st rule: match_side.induct)
  case (1 s a st)
  show ?case
  proof (cases "side_cond a st \<and> \<not> price_stop s a st")
    case True
    with 1 show ?thesis
      by (simp add: match_side.simps [of _ s a st]
            match_side.simps [of _ s a "relay cb env st"] sweep_level_relay)
  next
    case False
    then show ?thesis
      by (auto simp add: match_side.simps [of _ s a st]
            match_side.simps [of _ s a "relay cb env st"])
  qed
qed

definition relay3 ::
  "(Trade \<Rightarrow> 'e \<Rightarrow> 'e) option \<Rightarrow> 'e \<Rightarrow> 'a \<times> 'b \<times> Trade list \<Rightarrow> 'a \<times> 'b \<times> 'e" where
  "relay3 cb env = (\<lambda>(h, b, ts). (h, b, deliver cb ts env))"

lemma match_order_relay:
  "match_order cb a (relay3 cb env st) = relay3 cb env (match_order (Some record_trade) a st)"
proof -
  obtain h b ts where st: "st = (h, b, ts)" by (cases st)
  have r: "\<And>levels. (h, levels, total_trades b, deliver cb ts env)
             = relay cb env (h, levels, total_trades b, ts)"
    by (simp add: relay_def)
  show ?thesis
    unfolding st match_order_def
    apply (simp add: relay3_def [of cb env])
    apply (simp only: r match_side_relay)
    apply (simp add: relay_def relay3_def split: prod.splits)
    done
qed

lemma process_market_order_relay:
  "process_market_order cb a (relay3 cb env st)
     = relay3 cb env (process_market_order (Some record_trade) a st)"
  by (simp add: process_market_order_def match_order_relay)
     (simp add: relay3_def split: prod.splits)

lemma add_order_relay:
  "add_order cb a (relay3 cb env st) = relay3 cb env (add_order (Some record_trade) a st)"
proof -
  obtain h b ts where st: "st = (h, b, ts)" by (cases st)
  have r: "(h, b, deliver cb ts env) = relay3 cb env (h, b, ts)"
    by (simp add: relay3_def)
  show ?thesis
    unfolding st add_order_def
    apply (simp add: relay3_def [of cb env])
    apply (simp only: r match_order_relay process_market_order_relay)
    apply (simp add: relay3_def split: prod.splits)
    done
qed

lemma deliver_Nil [simp]: "deliver cb [] env = env"
  by (simp add: deliver_def split: option.splits)

lemma add_order_trades:
  "add_order cb a (h, b, env)
     = (case add_order (Some record_trade) a (h, b, []) of
          (h', b', ts) \<Rightarrow> (h', b', deliver cb ts env))"
  using add_order_relay [of cb a env "(h, b, [])"]
  by (simp add: relay3_def)

lemma fold_record_trade [simp]: "fold record_trade ts ts0 = ts0 @ ts"
  by (induction ts arbitrary: ts0) (simp_all add: record_trade_def)

lemma add_order_trades_append:
  "add_order (Some record_trade) a (h, b, ts0)
     = (case add_order (Some record_trade) a (h, b, []) of
          (h', b', ts) \<Rightarrow> (h', b', ts0 @ ts))"
  using add_order_trades [of "Some record_trade" a h b ts0]
  by (simp add: deliver_def)

lemma fold_engine_on_trade:
  "fold engine_on_trade ts eng =
     eng\<lparr>stats := (stats eng)\<lparr>trades_executed := trades_executed (stats eng) + of_nat (length ts)\<rparr>,
         strategies := map (\<lambda>(strategy, x). (strategy, fold (on_trade strategy) ts x)) (strategies eng),
         trade_log := trade_log eng @ ts\<rparr>"
proof (induction ts arbitrary: eng)
  case Nil
  show ?case by (simp add: split_def)
next
  case (Cons t ts)
  have step: "fold engine_on_trade (t # ts) eng = fold engine_on_trade ts (engine_on_trade t eng)"
    by simp
  show ?case
    unfolding step Cons.IH
    by (simp add: engine_on_trade_def split_def comp_def ac_simps)
qed

section \<open>Fields that matching never writes\<close>

text \<open>Matching writes \<open>filled\<close> and \<open>status\<close> only.\<close>

definition static :: "Order \<Rightarrow> Order" where
  "static ord = ord\<lparr>filled := 0, status := PENDING\<rparr>"

definition same_static :: "memory \<Rightarrow> memory \<Rightarrow> bool" where
  "same_static h h' = (\<forall>x. static (h' x) = static (h x))"

lemma static_upd [simp]:
  "static (ord\<lparr>filled := q\<rparr>) = static ord" "static (ord\<lparr>status := st\<rparr>) = static ord"
  by (simp_all add: static_def)

lemma static_fields:
  assumes "static x = static y"
  shows "order_id x = order_id y" "price x = price y" "quantity x = quantity y"
    "initial_quantity x = initial_quantity y" "timestamp x = timestamp y"
    "side x = side y" "type x = type y" "user_id x = user_id y"
proof -
  have "order_id (static x) = order_id (static y)" using assms by simp
  then show "order_id x = order_id y" by (simp add: static_def)
  have "price (static x) = price (static y)" using assms by simp
  then show "price x = price y" by (simp add: static_def)
  have "quantity (static x) = quantity (static y)" using assms by simp
  then show "quantity x = quantity y" by (simp add: static_def)
  have "initial_quantity (static x) = initial_quantity (static y)" using assms by simp
  then show "initial_quantity x = initial_quantity y" by (simp add: static_def)
  have "timestamp (static x) = timestamp (static y)" using assms by simp
  then show "timestamp x = timestamp y" by (simp add: static_def)
  have "side (static x) = side (static y)" using assms by simp
  then show "side x = side y" by (simp add: static_def)
  have "type (static x) = type (static y)" using assms by simp
  then show "type x = type y" by (simp add: static_def)
  have "user_id (static x) = user_id (static y)" using assms by simp
  then show "user_id x = user_id y" by (simp add: static_def)
qed

lemma same_static_refl [simp]: "same_static h h"
  by (simp add: same_static_def)

lemma same_static_upd:
  "same_static h0 h \<Longrightarrow> static v = static (h x) \<Longrightarrow> same_static h0 (h(x := v))"
  by (simp add: same_static_def)

lemma fill_front_static:
  "same_static h0 (fst st) \<Longrightarrow> same_static h0 (fst (fill_front cb s a st))"
  by (cases st)
     (auto simp: fill_front_def Let_def same_static_def split: prod.splits)

lemma match_level_static:
  "same_static h0 (fst st) \<Longrightarrow> same_static h0 (fst (match_level cb s a st))"
  by (rule match_level_rule [where Inv = "\<lambda>st. same_static h0 (fst st)"])
     (simp_all add: fill_front_static)

lemma sweep_level_static:
  "same_static h0 (fst st) \<Longrightarrow> same_static h0 (fst (sweep_level cb s a st))"
proof -
  assume a: "same_static h0 (fst st)"
  obtain h levels n env where st: "st = (h, levels, n, env)" by (cases st)
  from a st have "same_static h0 (fst (match_level cb s a (h, snd (hd levels), n, env)))"
    by (intro match_level_static) simp
  then show ?thesis by (auto simp add: st sweep_level_def split: prod.splits)
qed

lemma match_side_static:
  "same_static h0 (fst st) \<Longrightarrow> same_static h0 (fst (match_side cb s a st))"
  by (rule match_side_rule [where Inv = "\<lambda>st. same_static h0 (fst st)"])
     (simp_all add: sweep_level_static)

lemma match_order_BUY:
  assumes "side (h a) = BUY"
    and "match_side cb BUY a (h, asks b, total_trades b, env) = (h', ls, n', e')"
  shows "match_order cb a (h, b, env) =
           (h'(a := (h' a)\<lparr>status := (if filled (h' a) \<ge> quantity (h' a) then FILLED
                                        else if filled (h' a) > 0 then PARTIAL else PENDING)\<rparr>),
            b\<lparr>asks := ls, total_trades := n'\<rparr>, e')"
  using assms by (simp add: match_order_def)

lemma match_order_SELL:
  assumes "side (h a) \<noteq> BUY"
    and "match_side cb SELL a (h, bids b, total_trades b, env) = (h', ls, n', e')"
  shows "match_order cb a (h, b, env) =
           (h'(a := (h' a)\<lparr>status := (if filled (h' a) \<ge> quantity (h' a) then FILLED
                                        else if filled (h' a) > 0 then PARTIAL else PENDING)\<rparr>),
            b\<lparr>bids := ls, total_trades := n'\<rparr>, e')"
  using assms by (simp add: match_order_def)

lemma match_order_static:
  assumes "same_static h0 (fst st)"
  shows "same_static h0 (fst (match_order cb a st))"
proof -
  obtain h b env where st: "st = (h, b, env)" by (cases st)
  show ?thesis
  proof (cases "side (h a) = BUY")
    case True
    obtain h' ls n' e'
      where m: "match_side cb BUY a (h, asks b, total_trades b, env) = (h', ls, n', e')"
      by (cases "match_side cb BUY a (h, asks b, total_trades b, env)")
    from match_side_static [of h0 "(h, asks b, total_trades b, env)" cb BUY a] assms st m
    have "same_static h0 h'" by simp
    then show ?thesis
      by (simp add: st match_order_BUY [OF True m] same_static_upd)
  next
    case False
    obtain h' ls n' e'
      where m: "match_side cb SELL a (h, bids b, total_trades b, env) = (h', ls, n', e')"
      by (cases "match_side cb SELL a (h, bids b, total_trades b, env)")
    from match_side_static [of h0 "(h, bids b, total_trades b, env)" cb SELL a] assms st m
    have "same_static h0 h'" by simp
    then show ?thesis
      by (simp add: st match_order_SELL [OF False m] same_static_upd)
  qed
qed

lemma process_market_order_static:
  "same_static h0 (fst st) \<Longrightarrow> same_static h0 (fst (process_market_order cb a st))"
  using match_order_static [of h0 st cb a]
  by (auto simp: process_market_order_def same_static_def split: prod.splits)

lemma add_order_static:
  "same_static h0 (fst st) \<Longrightarrow> same_static h0 (fst (add_order cb a st))"
  using match_order_static [of h0 st cb a] process_market_order_static [of h0 st cb a]
  by (cases st) (auto simp: add_order_def split: prod.splits)

section \<open>Submitting an order\<close>

definition stamped :: "Order \<Rightarrow> 's TickEngine \<Rightarrow> Order" where
  "stamped order_template eng =
     order_template\<lparr>order_id := next_order_id eng, timestamp := current_time eng\<rparr>"

lemma submit_order_eq:
  "submit_order first order_template eng =
     (let (a, pool1) = allocate BlockSize (order_pool eng);
          h = (pool_memory eng)(a := stamped order_template eng)
      in if order_books eng = []
         then eng\<lparr>order_pool := pool1, pool_memory := h,
                  next_order_id := next_order_id eng + 1\<rparr>
         else
           let i = begin_index first (order_books eng);
               (h', b', ts) = add_order (Some record_trade) a (h, snd (order_books eng ! i), [])
           in eng\<lparr>order_pool := pool1, pool_memory := h',
                   next_order_id := next_order_id eng + 1,
                   order_books := (order_books eng)[i := (fst (order_books eng ! i), b')],
                   stats := (stats eng)\<lparr>trades_executed := trades_executed (stats eng)
                                                             + of_nat (length ts),
                                         orders_submitted := orders_submitted (stats eng) + 1\<rparr>,
                   strategies := map (\<lambda>(strategy, x). (strategy, fold (on_trade strategy) ts x))
                                   (strategies eng),
                   trade_log := trade_log eng @ ts\<rparr>)"
  unfolding submit_order_def Let_def
  by (simp add: add_order_trades [of "Some engine_on_trade"] deliver_def fold_engine_on_trade
        stamped_def split: prod.splits)

definition zero_memory :: memory where
  "zero_memory x = mk_order 0 0 0 0 BUY LIMIT 0"

definition begin_first :: "string list \<Rightarrow> nat" where
  "begin_first ks = 0"

definition frozen_clock :: "nat \<Rightarrow> int" where
  "frozen_clock k = 0"

lemma add_order_keeps_stamp:
  "fst (add_order cb a (h, b, env)) = h' \<Longrightarrow>
   order_id (h' x) = order_id (h x) \<and> timestamp (h' x) = timestamp (h x)"
  using add_order_static [of h "(h, b, env)" cb a]
  by (auto simp: same_static_def dest: static_fields)

lemma next_order_id_submit:
  "next_order_id (submit_order first order_template eng) = next_order_id eng + 1"
  by (simp add: submit_order_eq Let_def split: prod.splits)

lemma next_order_id_fold_submit:
  "next_order_id (fold (submit_order first) tmpls eng) = next_order_id eng + of_nat (length tmpls)"
  by (induction tmpls arbitrary: eng) (simp_all add: next_order_id_submit)

text \<open>
  C2 (as the code has it). Every call of \<open>submit_order\<close> stamps the allocated order with the
  next value of the counter, which starts at 1 and advances by one per call, and with
  \<open>current_time\<close>. When the book map is empty nothing else happens: no book receives the
  order and \<open>orders_submitted\<close> keeps its value. Otherwise the order goes to the book that
  \<open>order_books_.begin()\<close> yields, whatever symbol it was meant for (an order carries no
  symbol), that book becomes the result of \<open>add_order\<close>, the other books are unchanged
  and \<open>orders_submitted\<close> grows by one.
\<close>

theorem submit_order_effect:
  "(let a = fst (allocate BlockSize (order_pool eng));
        i = begin_index first (order_books eng);
        eng' = submit_order first order_template eng
    in order_id (pool_memory eng' a) = next_order_id eng
       \<and> timestamp (pool_memory eng' a) = current_time eng
       \<and> next_order_id eng' = next_order_id eng + 1
       \<and> (if order_books eng = []
           then order_books eng' = []
                \<and> orders_submitted (stats eng') = orders_submitted (stats eng)
           else (case add_order (Some record_trade) a
                        ((pool_memory eng)(a := stamped order_template eng),
                         snd (order_books eng ! i), [])
                 of (h', b', trades) \<Rightarrow>
                      order_books eng' = (order_books eng)[i := (fst (order_books eng ! i), b')]
                      \<and> pool_memory eng' = h')
                \<and> orders_submitted (stats eng') = orders_submitted (stats eng) + 1))
   \<and> next_order_id (TickEngine_init m :: 's TickEngine) = 1
   \<and> next_order_id (fold (submit_order first) tmpls (TickEngine_init m :: 's TickEngine))
         = 1 + of_nat (length tmpls)"
proof -
  obtain a pool1 where al: "allocate BlockSize (order_pool eng) = (a, pool1)"
    by (cases "allocate BlockSize (order_pool eng)")
  define h where "h = (pool_memory eng)(a := stamped order_template eng)"
  define i where "i = begin_index first (order_books eng)"
  obtain h' b' ts
    where ad: "add_order (Some record_trade) a (h, snd (order_books eng ! i), []) = (h', b', ts)"
    by (cases "add_order (Some record_trade) a (h, snd (order_books eng ! i), [])")
  from add_order_keeps_stamp [of "Some record_trade" a h "snd (order_books eng ! i)" "[]" h' a] ad
  have k: "order_id (h' a) = next_order_id eng" "timestamp (h' a) = current_time eng"
    by (simp_all add: h_def stamped_def)
  have k0: "order_id (h a) = next_order_id eng" "timestamp (h a) = current_time eng"
    by (simp_all add: h_def stamped_def)
  have i1: "next_order_id (TickEngine_init m :: 's TickEngine) = 1"
    by (simp add: TickEngine_init_def)
  show ?thesis
    using k k0 ad i1
    by (simp add: submit_order_eq al Let_def h_def [symmetric] i_def [symmetric]
          next_order_id_fold_submit)
qed

text \<open>
  An engine with the books of two symbols and no strategy, and the orders queued on the
  bid side of each of its books. \<open>begin_last\<close> is the other choice of \<open>begin()\<close>.
\<close>

definition begin_last :: "string list \<Rightarrow> nat" where
  "begin_last ks = length ks - 1"

definition tick_of :: "string \<Rightarrow> Timestamp \<Rightarrow> Tick" where
  "tick_of nm ts = \<lparr>symbol = nm, tick_price = 1000000, volume = 100, tick_timestamp = ts,
                     tick_side = BUY\<rparr>"

definition two_books :: "unit TickEngine" where
  "two_books = run_backtest begin_first frozen_clock [tick_of ''AAA'' 1000, tick_of ''BBB'' 2000]
                 (TickEngine_init zero_memory)"

definition bid_queues :: "'s TickEngine \<Rightarrow> (string \<times> addr list list) list" where
  "bid_queues eng = map (\<lambda>(nm, b). (nm, map (\<lambda>(p, l). orders l) (bids b))) (order_books eng)"

lemma two_books_eq:
  "two_books = \<lparr>order_books = [(''AAA'', OrderBook_init ''AAA''), (''BBB'', OrderBook_init ''BBB'')],
      strategies = [], order_pool = MemoryPool_init, pool_memory = zero_memory,
      next_order_id = 1, current_time = 2000,
      stats = \<lparr>ticks_processed = 2, orders_submitted = 0, trades_executed = 0,
               total_latency_ns = 0\<rparr>,
      clock_reads = 4, trade_log = []\<rparr>"
  by (simp add: two_books_def run_backtest_def process_tick_def TickEngine_init_def Let_def
        tick_of_def frozen_clock_def)

text \<open>
  C2 as stated fails on a new engine: the call does not increment \<open>orders_submitted\<close> and
  no book receives the order. It fails on an engine with two books too: two orders
  submitted one after the other are queued in one and the same book, the one that
  \<open>begin()\<close> yields, whichever of the two that is, and the book of the other symbol
  receives nothing.
\<close>

theorem submit_uncounted_or_misrouted:
  "orders_submitted (stats (submit_order begin_first (mk_order 0 1000000 100 0 BUY LIMIT 1)
       (TickEngine_init zero_memory :: unit TickEngine)))
     \<noteq> orders_submitted (stats (TickEngine_init zero_memory :: unit TickEngine)) + 1
   \<and> order_books (submit_order begin_first (mk_order 0 1000000 100 0 BUY LIMIT 1)
       (TickEngine_init zero_memory :: unit TickEngine)) = []
   \<and> bid_queues (fold (submit_order begin_first)
         [mk_order 0 1000000 100 0 BUY LIMIT 1, mk_order 0 1000000 100 0 BUY LIMIT 1] two_books)
       = [(''AAA'', [[Slot 0 0, Slot 0 1]]), (''BBB'', [])]
   \<and> bid_queues (fold (submit_order begin_last)
         [mk_order 0 1000000 100 0 BUY LIMIT 1, mk_order 0 1000000 100 0 BUY LIMIT 1] two_books)
       = [(''AAA'', []), (''BBB'', [[Slot 0 0, Slot 0 1]])]"
proof -
  have new_engine:
    "orders_submitted (stats (submit_order begin_first (mk_order 0 1000000 100 0 BUY LIMIT 1)
         (TickEngine_init zero_memory :: unit TickEngine)))
       \<noteq> orders_submitted (stats (TickEngine_init zero_memory :: unit TickEngine)) + 1
     \<and> order_books (submit_order begin_first (mk_order 0 1000000 100 0 BUY LIMIT 1)
         (TickEngine_init zero_memory :: unit TickEngine)) = []"
    by (simp add: submit_order_eq TickEngine_init_def Let_def split: prod.splits)
  have both_in_first:
    "bid_queues (fold (submit_order begin_first)
         [mk_order 0 1000000 100 0 BUY LIMIT 1, mk_order 0 1000000 100 0 BUY LIMIT 1] two_books)
       = [(''AAA'', [[Slot 0 0, Slot 0 1]]), (''BBB'', [])]"
    unfolding two_books_eq
    by (simp add: submit_order_eq bid_queues_def begin_index_def begin_first_def stamped_def
          MemoryPool_init_eq allocate_def BlockSize_def book_eval)
  have both_in_last:
    "bid_queues (fold (submit_order begin_last)
         [mk_order 0 1000000 100 0 BUY LIMIT 1, mk_order 0 1000000 100 0 BUY LIMIT 1] two_books)
       = [(''AAA'', []), (''BBB'', [[Slot 0 0, Slot 0 1]])]"
    unfolding two_books_eq
    by (simp add: submit_order_eq bid_queues_def begin_index_def begin_last_def stamped_def
          MemoryPool_init_eq allocate_def BlockSize_def book_eval)
  from new_engine both_in_first both_in_last show ?thesis
    by (intro conjI) (erule conjunct1, erule conjunct2, assumption+)
qed

lemma allocate_init:
  "allocate BlockSize (order_pool (TickEngine_init m))
     = (Slot 0 0, \<lparr>blocks = [0], current_block = 0, current_index = Suc 0\<rparr>)"
  by (simp add: TickEngine_init_def MemoryPool_init_eq allocate_def BlockSize_def)

lemma submit_order_stamp:
  "order_id (pool_memory (submit_order first order_template eng)
               (fst (allocate BlockSize (order_pool eng)))) = next_order_id eng"
proof -
  obtain a pool1 where al: "allocate BlockSize (order_pool eng) = (a, pool1)"
    by (cases "allocate BlockSize (order_pool eng)")
  define h where "h = (pool_memory eng)(a := stamped order_template eng)"
  define i where "i = begin_index first (order_books eng)"
  obtain h' b' ts
    where ad: "add_order (Some record_trade) a (h, snd (order_books eng ! i), []) = (h', b', ts)"
    by (cases "add_order (Some record_trade) a (h, snd (order_books eng ! i), [])")
  from add_order_keeps_stamp [of "Some record_trade" a h "snd (order_books eng ! i)" "[]" h' a] ad
  have k: "order_id (h' a) = next_order_id eng"
    by (simp_all add: h_def stamped_def)
  have k0: "order_id (h a) = next_order_id eng"
    by (simp_all add: h_def stamped_def)
  show ?thesis
    using k k0 ad
    by (simp add: submit_order_eq al Let_def h_def [symmetric] i_def [symmetric])
qed

text \<open>
  C10. When the book map is empty, \<open>submit_order\<close> still takes a slot from the arena,
  writes the stamped order there and advances the id counter; the book map stays empty
  and the statistics (\<open>orders_submitted\<close> among them) and the trade log are unchanged.
  The id is used up: the order of the following submission is stamped with the next id,
  so the ids of the orders that reach a book (and the trades that name them) skip it.
\<close>

theorem submit_dropped_without_book:
  assumes "order_books eng = []"
  shows "(let (a, pool1) = allocate BlockSize (order_pool eng);
              eng' = submit_order first order_template eng
          in order_pool eng' = pool1
             \<and> pool_memory eng' = (pool_memory eng)(a := stamped order_template eng)
             \<and> next_order_id eng' = next_order_id eng + 1
             \<and> order_books eng' = []
             \<and> stats eng' = stats eng
             \<and> trade_log eng' = trade_log eng
             \<and> order_id (pool_memory (submit_order first next_template eng')
                           (fst (allocate BlockSize (order_pool eng'))))
                 = next_order_id eng + 1)"
proof -
  have n: "next_order_id (submit_order first order_template eng) = next_order_id eng + 1"
    by (rule next_order_id_submit)
  show ?thesis
    using assms submit_order_stamp [of first next_template "submit_order first order_template eng"]
    unfolding n
    by (simp add: submit_order_eq [of first order_template] Let_def split: prod.splits)
qed

text \<open>
  A new engine: a submission before any tick, then a tick, then a SELL and a BUY that
  cross.
\<close>

definition gap1 :: "unit TickEngine" where
  "gap1 = submit_order begin_first (mk_order 0 1000000 100 0 BUY LIMIT 1)
            (TickEngine_init zero_memory)"

definition gap2 :: "unit TickEngine" where
  "gap2 = submit_order begin_first (mk_order 0 1000000 100 0 SELL LIMIT 1)
            (process_tick begin_first frozen_clock (tick_of ''AAA'' 1000) gap1)"

definition gap3 :: "unit TickEngine" where
  "gap3 = submit_order begin_first (mk_order 0 1000000 100 0 BUY LIMIT 2) gap2"

lemma gap1_eq:
  "gap1 = \<lparr>order_books = [], strategies = [],
      order_pool = \<lparr>blocks = [0], current_block = 0, current_index = 1\<rparr>,
      pool_memory = zero_memory(Slot 0 0 := mk_order 1 1000000 100 0 BUY LIMIT 1),
      next_order_id = 2, current_time = 0,
      stats = \<lparr>ticks_processed = 0, orders_submitted = 0, trades_executed = 0,
               total_latency_ns = 0\<rparr>,
      clock_reads = 0, trade_log = []\<rparr>"
  unfolding gap1_def
  by (simp add: submit_order_eq TickEngine_init_def stamped_def
        MemoryPool_init_eq allocate_def BlockSize_def mk_order_def)

lemma gap2_eq:
  "gap2 = \<lparr>order_books = [(''AAA'', \<lparr>book_symbol = ''AAA'', bids = [],
         asks = [(1000000, \<lparr>level_price = 1000000, orders = [Slot 0 1], total_quantity = 100\<rparr>)],
         total_trades = 0\<rparr>)], strategies = [],
      order_pool = \<lparr>blocks = [0], current_block = 0, current_index = 2\<rparr>,
      pool_memory = zero_memory(Slot 0 0 := mk_order 1 1000000 100 0 BUY LIMIT 1,
                                Slot 0 1 := mk_order 2 1000000 100 1000 SELL LIMIT 1),
      next_order_id = 3, current_time = 1000,
      stats = \<lparr>ticks_processed = 1, orders_submitted = 1, trades_executed = 0,
               total_latency_ns = 0\<rparr>,
      clock_reads = 2, trade_log = []\<rparr>"
  unfolding gap2_def gap1_eq
  by (simp add: submit_order_eq process_tick_def tick_of_def frozen_clock_def
        begin_index_def begin_first_def stamped_def allocate_def BlockSize_def book_eval)

lemma gap3_trades:
  "trade_log gap3
     = [\<lparr>buy_order_id = 3, sell_order_id = 2, trade_price = 1000000, trade_quantity = 100,
         trade_timestamp = 1000\<rparr>]
   \<and> orders_submitted (stats gap3) = 2 \<and> next_order_id gap3 = 4"
  unfolding gap3_def gap2_eq
  by (simp add: submit_order_eq begin_index_def begin_first_def stamped_def
        allocate_def BlockSize_def book_eval)

text \<open>
  The new engine has no book: its first submission is dropped and uses up id 1. The
  two orders submitted after the first tick get the ids 2 and 3, and the trade between
  them names these: three ids are used, two orders are counted, id 1 is in no trade.
\<close>

theorem submit_dropped_witness:
  "order_books (TickEngine_init zero_memory :: unit TickEngine) = []
   \<and> next_order_id gap1 = 2
   \<and> stats gap1 = stats (TickEngine_init zero_memory :: unit TickEngine)
   \<and> allocated_count BlockSize (order_pool gap1) = 1
   \<and> trade_log gap3
       = [\<lparr>buy_order_id = 3, sell_order_id = 2, trade_price = 1000000, trade_quantity = 100,
           trade_timestamp = 1000\<rparr>]
   \<and> orders_submitted (stats gap3) = 2 \<and> next_order_id gap3 = 4"
proof -
  have e: "order_books (TickEngine_init zero_memory :: unit TickEngine) = []"
    by (simp add: TickEngine_init_def)
  have n: "next_order_id (TickEngine_init zero_memory :: unit TickEngine) = 1"
    by (simp add: TickEngine_init_def)
  from submit_dropped_without_book [OF e, of begin_first "mk_order 0 1000000 100 0 BUY LIMIT 1"]
  have "order_pool gap1 = \<lparr>blocks = [0], current_block = 0, current_index = Suc 0\<rparr>
        \<and> next_order_id gap1 = 1 + 1
        \<and> stats gap1 = stats (TickEngine_init zero_memory :: unit TickEngine)"
    unfolding allocate_init Let_def n gap1_def [symmetric] by simp
  with gap3_trades show ?thesis
    by (simp add: e allocated_count_def)
qed

section \<open>Two runs on the same ticks: the clock\<close>

text \<open>
  The clock is read twice per tick and its readings reach \<open>total_latency_ns\<close> only.
\<close>

definition set_latency :: "64 word \<Rightarrow> 's TickEngine \<Rightarrow> 's TickEngine" where
  "set_latency v eng = eng\<lparr>stats := (stats eng)\<lparr>total_latency_ns := v\<rparr>\<rparr>"

definition same_but_latency :: "'s TickEngine \<Rightarrow> 's TickEngine \<Rightarrow> bool" where
  "same_but_latency e1 e2 = (set_latency 0 e1 = set_latency 0 e2)"

lemma same_but_latencyD:
  "same_but_latency e1 e2 \<Longrightarrow> e2 = set_latency (total_latency_ns (stats e2)) e1"
proof -
  assume "same_but_latency e1 e2"
  then have "set_latency (total_latency_ns (stats e2)) (set_latency 0 e1)
             = set_latency (total_latency_ns (stats e2)) (set_latency 0 e2)"
    by (simp add: same_but_latency_def)
  then show ?thesis by (simp add: set_latency_def)
qed

lemma same_but_latency_set [simp]: "same_but_latency e (set_latency v e)"
  by (simp add: same_but_latency_def set_latency_def)

lemma submit_order_set_latency:
  "submit_order first t (set_latency v eng) = set_latency v (submit_order first t eng)"
  by (simp add: submit_order_eq set_latency_def stamped_def Let_def split: prod.splits)

lemma set_state_set_latency:
  "set_state i x (set_latency v eng) = set_latency v (set_state i x eng)"
  by (simp add: set_state_def set_latency_def)

lemma strategies_set_latency [simp]: "strategies (set_latency v eng) = strategies eng"
  by (simp add: set_latency_def)

lemma run_prog_set_latency:
  "run_prog first i p (set_latency v eng) = set_latency v (run_prog first i p eng)"
  by (induction p arbitrary: eng)
     (simp_all add: set_state_set_latency submit_order_set_latency Let_def)

lemma notify_set_latency:
  "notify first tick i (set_latency v eng) = set_latency v (notify first tick i eng)"
  by (simp add: notify_def run_prog_set_latency split: prod.splits)

lemma fold_notify_set_latency:
  "fold (notify first tick) is (set_latency v eng) = set_latency v (fold (notify first tick) is eng)"
  by (induction "is" arbitrary: eng) (simp_all add: notify_set_latency)

lemma process_tick_same:
  fixes e1 e2 :: "'s TickEngine"
  assumes "same_but_latency e1 e2"
  shows "same_but_latency (process_tick first clk1 tick e1) (process_tick first clk2 tick e2)"
proof -
  define v where "v = total_latency_ns (stats e2)"
  have e2: "e2 = set_latency v e1" using assms by (simp add: v_def same_but_latencyD)
  define pre where "pre = (\<lambda>e :: 's TickEngine.
      let eng1 = e\<lparr>clock_reads := clock_reads e + 1, current_time := tick_timestamp tick\<rparr>
      in (if symbol tick \<in> set (map fst (order_books eng1)) then eng1
          else eng1\<lparr>order_books := order_books eng1
                     @ [(symbol tick, OrderBook_init (symbol tick))]\<rparr>))"
  have p: "pre (set_latency v e1) = set_latency v (pre e1)"
    by (simp add: pre_def set_latency_def Let_def)
  define mid where "mid = (\<lambda>e :: 's TickEngine.
      fold (notify first tick) [0..<length (strategies (pre e))] (pre e))"
  have m: "mid (set_latency v e1) = set_latency v (mid e1)"
    by (simp add: mid_def p fold_notify_set_latency)
  have pt: "\<And>clk e. process_tick first clk tick e =
      (mid e)\<lparr>clock_reads := clock_reads (mid e) + 1,
              stats := (stats (mid e))\<lparr>ticks_processed := ticks_processed (stats (mid e)) + 1,
                 total_latency_ns := total_latency_ns (stats (mid e))
                    + word_of_int (clk (clock_reads (mid e)) - clk (clock_reads e))\<rparr>\<rparr>"
    by (simp add: process_tick_def mid_def pre_def Let_def)
  show ?thesis
    unfolding e2 pt m
    by (simp add: same_but_latency_def set_latency_def)
qed

lemma run_backtest_same:
  "same_but_latency e1 e2 \<Longrightarrow>
   same_but_latency (run_backtest first clk1 ticks e1) (run_backtest first clk2 ticks e2)"
  unfolding run_backtest_def
  by (induction ticks arbitrary: e1 e2) (simp_all add: process_tick_same)

definition ticking_clock :: "nat \<Rightarrow> int" where
  "ticking_clock k = int k"

definition test_tick :: Tick where
  "test_tick = \<lparr>symbol = ''TEST'', tick_price = 1000000, volume = 100,
                 tick_timestamp = 1000, tick_side = BUY\<rparr>"

lemma same_but_latency_fields:
  assumes "same_but_latency e1 e2"
  shows "order_books e1 = order_books e2" "strategies e1 = strategies e2"
    "order_pool e1 = order_pool e2" "pool_memory e1 = pool_memory e2"
    "next_order_id e1 = next_order_id e2" "current_time e1 = current_time e2"
    "trade_log e1 = trade_log e2"
    "ticks_processed (stats e1) = ticks_processed (stats e2)"
    "orders_submitted (stats e1) = orders_submitted (stats e2)"
    "trades_executed (stats e1) = trades_executed (stats e2)"
proof -
  from assms have e: "e2 = set_latency (total_latency_ns (stats e2)) e1"
    by (rule same_but_latencyD)
  show "order_books e1 = order_books e2" by (subst e) (simp add: set_latency_def)
  show "strategies e1 = strategies e2" by (subst e) (simp add: set_latency_def)
  show "order_pool e1 = order_pool e2" by (subst e) (simp add: set_latency_def)
  show "pool_memory e1 = pool_memory e2" by (subst e) (simp add: set_latency_def)
  show "next_order_id e1 = next_order_id e2" by (subst e) (simp add: set_latency_def)
  show "current_time e1 = current_time e2" by (subst e) (simp add: set_latency_def)
  show "trade_log e1 = trade_log e2" by (subst e) (simp add: set_latency_def)
  show "ticks_processed (stats e1) = ticks_processed (stats e2)"
    by (subst e) (simp add: set_latency_def)
  show "orders_submitted (stats e1) = orders_submitted (stats e2)"
    by (subst e) (simp add: set_latency_def)
  show "trades_executed (stats e1) = trades_executed (stats e2)"
    by (subst e) (simp add: set_latency_def)
qed

lemma same_but_latency_refl: "same_but_latency e e"
  by (simp add: same_but_latency_def)

section \<open>The book invariant\<close>

definition resting_of :: "(Price \<times> PriceLevel) list \<Rightarrow> addr list" where
  "resting_of levels = concat (map (\<lambda>(k, level). orders level) levels)"

definition resting :: "OrderBook \<Rightarrow> addr list" where
  "resting b = resting_of (bids b) @ resting_of (asks b)"

definition queue_quantity :: "memory \<Rightarrow> addr list \<Rightarrow> Quantity" where
  "queue_quantity h q = sum_list (map (\<lambda>c. remaining (h c)) q)"

lemma queue_quantity_cong:
  "(\<And>c. c \<in> set q \<Longrightarrow> remaining (h' c) = remaining (h c)) \<Longrightarrow>
   queue_quantity h' q = queue_quantity h q"
  unfolding queue_quantity_def by (induction q) simp_all

lemma queue_quantity_simps [simp]:
  "queue_quantity h [] = 0"
  "queue_quantity h (c # q) = remaining (h c) + queue_quantity h q"
  "queue_quantity h (q @ [c]) = queue_quantity h q + remaining (h c)"
  by (simp_all add: queue_quantity_def)

text \<open>The inner loop, seen from the state \<open>(h0, level0)\<close> at its start.\<close>

definition inner_inv ::
  "addr \<Rightarrow> memory \<Rightarrow> PriceLevel \<Rightarrow> memory \<times> PriceLevel \<times> 64 word \<times> 'e \<Rightarrow> bool" where
  "inner_inv a h0 level0 = (\<lambda>(h, level, n, env).
     level_price level = level_price level0
     \<and> (\<exists>k. orders level = drop k (orders level0))
     \<and> (\<forall>x. x \<noteq> a \<longrightarrow> x \<notin> set (orders level0) \<longrightarrow> h x = h0 x)
     \<and> total_quantity level = queue_quantity h (orders level))"

lemma drop_Cons_tl: "drop k xs = c # cs \<Longrightarrow> cs = drop (Suc k) xs"
  by (metis drop_Suc tl_drop list.sel(3))

lemma fill_front_inner_inv:
  assumes na: "a \<notin> set (orders level0)" and d: "distinct (orders level0)"
    and i: "inner_inv a h0 level0 st" and c: "level_cond a st"
  shows "inner_inv a h0 level0 (fill_front cb s a st)"
proof -
  obtain h level n env where st: "st = (h, level, n, env)" by (cases st)
  from c st obtain c cs where oc: "orders level = c # cs"
    by (cases "orders level") (auto simp: level_cond_def)
  from i st obtain k where k: "orders level = drop k (orders level0)"
    by (auto simp: inner_inv_def)
  from k oc have cin: "c \<in> set (orders level0)" by (metis in_set_dropD list.set_intros(1))
  with na have ca: "c \<noteq> a" by auto
  from k oc d have dcs: "distinct (c # cs)" by (metis distinct_drop)
  from k oc have sub: "set cs \<subseteq> set (orders level0)"
    by (metis set_drop_subset set_subset_Cons subset_trans)
  from k oc have "cs = drop (Suc k) (orders level0)" by (metis drop_Cons_tl)
  then have cs: "\<exists>j. cs = drop j (orders level0)" by blast
  from k oc have ccs: "\<exists>j. c # cs = drop j (orders level0)" by auto
  define t where "t = min (quantity (h a) - filled (h a)) (quantity (h c) - filled (h c))"
  define h' where "h' = h(a := (h a)\<lparr>filled := filled (h a) + t\<rparr>,
                          c := (h c)\<lparr>filled := filled (h c) + t\<rparr>)"
  have q: "queue_quantity (h'(c := v)) cs = queue_quantity h cs" for v
    using dcs sub na by (intro queue_quantity_cong) (auto simp: h'_def)
  have tq: "total_quantity level = remaining (h c) + queue_quantity h cs"
    using i st oc by (simp add: inner_inv_def)
  have "\<forall>x. x \<noteq> a \<longrightarrow> x \<notin> set (orders level0) \<longrightarrow> h x = h0 x"
    using i st by (simp add: inner_inv_def)
  then have fr: "\<forall>x. x \<noteq> a \<longrightarrow> x \<notin> set (orders level0) \<longrightarrow> (h'(c := v)) x = h0 x" for v
    using cin by (auto simp: h'_def)
  have lp: "level_price level = level_price level0" using i st by (simp add: inner_inv_def)
  show ?thesis
  proof (cases "filled (h c) + t \<ge> quantity (h c)")
    case True
    then have ff: "fill_front cb s a st =
       (h'(c := (h' c)\<lparr>status := FILLED\<rparr>),
        level\<lparr>total_quantity := total_quantity level - t, orders := cs\<rparr>,
        fst (if s = BUY then execute_trade cb (h a) (h c) (level_price level) t (n, env)
             else execute_trade cb (h c) (h a) (level_price level) t (n, env)),
        snd (if s = BUY then execute_trade cb (h a) (h c) (level_price level) t (n, env)
             else execute_trade cb (h c) (h a) (level_price level) t (n, env)))"
      using ca oc by (auto simp add: st fill_front_def Let_def t_def h'_def split_def)
    from True have "t = remaining (h c)" by (simp add: t_def remaining_def)
    with tq have "total_quantity level - t = queue_quantity h cs" by simp
    then show ?thesis
      unfolding ff inner_inv_def
      using lp cs fr by (simp add: q)
  next
    case False
    then have ff: "fill_front cb s a st =
       (h'(c := (h' c)\<lparr>status := PARTIAL\<rparr>),
        level\<lparr>total_quantity := total_quantity level - t\<rparr>,
        fst (if s = BUY then execute_trade cb (h a) (h c) (level_price level) t (n, env)
             else execute_trade cb (h c) (h a) (level_price level) t (n, env)),
        snd (if s = BUY then execute_trade cb (h a) (h c) (level_price level) t (n, env)
             else execute_trade cb (h c) (h a) (level_price level) t (n, env)))"
      using ca oc by (auto simp add: st fill_front_def Let_def t_def h'_def split_def)
    have "remaining ((h' c)\<lparr>status := PARTIAL\<rparr>) = remaining (h c) - t"
      using ca by (simp add: h'_def remaining_def)
    then show ?thesis
      unfolding ff inner_inv_def
      using lp ccs fr tq by (simp add: q oc)
  qed
qed

lemma inner_inv_init:
  "total_quantity level = queue_quantity h (orders level) \<Longrightarrow> inner_inv a h level (h, level, n, env)"
  unfolding inner_inv_def by (auto intro: exI [of _ 0])

lemma match_level_inner_inv:
  assumes "a \<notin> set (orders level)" and "distinct (orders level)"
    and "total_quantity level = queue_quantity h (orders level)"
  shows "inner_inv a h level (match_level cb s a (h, level, n, env))"
  by (rule match_level_rule [where Inv = "inner_inv a h level"])
     (simp_all add: inner_inv_init assms fill_front_inner_inv)

definition level_ok :: "memory \<Rightarrow> Price \<times> PriceLevel \<Rightarrow> bool" where
  "level_ok h = (\<lambda>(k, level).
     level_price level = k \<and> orders level \<noteq> []
     \<and> total_quantity level = queue_quantity h (orders level))"

lemma resting_of_simps [simp]:
  "resting_of [] = []"
  "resting_of ((k, level) # levels) = orders level @ resting_of levels"
  by (simp_all add: resting_of_def)

lemma resting_of_mem:
  "(k, level) \<in> set levels \<Longrightarrow> c \<in> set (orders level) \<Longrightarrow> c \<in> set (resting_of levels)"
  by (induction levels) auto

lemma level_ok_cong:
  assumes "level_ok h kl" and "\<And>c. c \<in> set (orders (snd kl)) \<Longrightarrow> remaining (h' c) = remaining (h c)"
  shows "level_ok h' kl"
  using assms queue_quantity_cong [of "orders (snd kl)" h' h]
  by (cases kl) (simp add: level_ok_def)

lemma levels_ok_cong:
  assumes "list_all (level_ok h) levels"
    and "\<And>c. c \<in> set (resting_of levels) \<Longrightarrow> remaining (h' c) = remaining (h c)"
  shows "list_all (level_ok h') levels"
  using assms
proof (induction levels)
  case Nil
  show ?case by simp
next
  case (Cons kl levels)
  obtain k level where kl: "kl = (k, level)" by (cases kl)
  from Cons.prems have "level_ok h' kl"
    by (intro level_ok_cong [of h kl h']) (auto simp: kl)
  moreover from Cons have "list_all (level_ok h') levels" by (auto simp: kl)
  ultimately show ?case by simp
qed

text \<open>The outer loop, seen from the state \<open>(h0, levels0)\<close> at its start.\<close>

definition outer_inv ::
  "addr \<Rightarrow> (Price \<Rightarrow> Price \<Rightarrow> bool) \<Rightarrow> memory \<Rightarrow> (Price \<times> PriceLevel) list
     \<Rightarrow> memory \<times> (Price \<times> PriceLevel) list \<times> 64 word \<times> 'e \<Rightarrow> bool" where
  "outer_inv a prec h0 levels0 = (\<lambda>(h, levels, n, env).
     list_all (level_ok h) levels
     \<and> distinct (resting_of levels)
     \<and> a \<notin> set (resting_of levels)
     \<and> sorted_wrt prec (map fst levels)
     \<and> set (resting_of levels) \<subseteq> set (resting_of levels0)
     \<and> set (map fst levels) \<subseteq> set (map fst levels0)
     \<and> (\<forall>x. x \<noteq> a \<longrightarrow> x \<notin> set (resting_of levels0) \<longrightarrow> h x = h0 x))"

lemma sweep_level_outer_inv:
  assumes i: "outer_inv a prec h0 levels0 st" and c: "side_cond a st"
  shows "outer_inv a prec h0 levels0 (sweep_level cb s a st)"
proof -
  obtain h levels n env where st: "st = (h, levels, n, env)" by (cases st)
  from c st obtain k level rest where lv: "levels = (k, level) # rest"
    by (cases levels) (auto simp: side_cond_def)
  obtain h' level' n' env'
    where m: "match_level cb s a (h, level, n, env) = (h', level', n', env')"
    by (cases "match_level cb s a (h, level, n, env)")
  from i st lv have ok: "level_ok h (k, level)" and oks: "list_all (level_ok h) rest"
    and d: "distinct (orders level @ resting_of rest)"
    and na: "a \<notin> set (orders level)" "a \<notin> set (resting_of rest)"
    and so: "sorted_wrt prec (k # map fst rest)"
    and sub: "set (orders level) \<union> set (resting_of rest) \<subseteq> set (resting_of levels0)"
    and keys: "insert k (set (map fst rest)) \<subseteq> set (map fst levels0)"
    and fr: "\<forall>x. x \<noteq> a \<longrightarrow> x \<notin> set (resting_of levels0) \<longrightarrow> h x = h0 x"
    by (auto simp: outer_inv_def)
  from ok have tq: "total_quantity level = queue_quantity h (orders level)"
    and lp: "level_price level = k"
    by (simp_all add: level_ok_def)
  from d have dl: "distinct (orders level)" by simp
  from match_level_inner_inv [OF na(1) dl tq, of cb s n env] m
  have lp': "level_price level' = k"
    and ex: "\<exists>j. orders level' = drop j (orders level)"
    and fr': "\<forall>x. x \<noteq> a \<longrightarrow> x \<notin> set (orders level) \<longrightarrow> h' x = h x"
    and tq': "total_quantity level' = queue_quantity h' (orders level')"
    by (auto simp: inner_inv_def lp)
  from ex have sub': "set (orders level') \<subseteq> set (orders level)"
    by (auto dest: in_set_dropD)
  from ex dl have dl': "distinct (orders level')" by auto
  have "\<And>c. c \<in> set (resting_of rest) \<Longrightarrow> remaining (h' c) = remaining (h c)"
    using fr' d na by auto
  with oks have oks': "list_all (level_ok h') rest" by (rule levels_ok_cong)
  have fr0: "\<forall>x. x \<noteq> a \<longrightarrow> x \<notin> set (resting_of levels0) \<longrightarrow> h' x = h0 x"
    using fr fr' sub by auto
  have sw: "sweep_level cb s a st =
      (h', if orders level' = [] then rest else (k, level') # rest, n', env')"
    by (simp add: st lv sweep_level_def m)
  show ?thesis
  proof (cases "orders level' = []")
    case True
    with oks' d na so sub keys fr0 show ?thesis
      unfolding sw outer_inv_def by auto
  next
    case False
    with lp' tq' have "level_ok h' (k, level')" by (simp add: level_ok_def)
    with False oks' d na so sub keys fr0 sub' dl' show ?thesis
      unfolding sw outer_inv_def by auto
  qed
qed

lemma outer_inv_init:
  assumes "list_all (level_ok h) levels" "distinct (resting_of levels)"
    "a \<notin> set (resting_of levels)" "sorted_wrt prec (map fst levels)"
  shows "outer_inv a prec h levels (h, levels, n, env)"
  using assms by (simp add: outer_inv_def)

lemma match_side_outer_inv:
  assumes "list_all (level_ok h) levels" "distinct (resting_of levels)"
    "a \<notin> set (resting_of levels)" "sorted_wrt prec (map fst levels)"
  shows "outer_inv a prec h levels (match_side cb s a (h, levels, n, env))"
  by (rule match_side_rule [where Inv = "outer_inv a prec h levels"])
     (simp_all add: outer_inv_init assms sweep_level_outer_inv)

text \<open>
  The well-formed book: the invariant of the specification, made inductive. Every level
  sits under its own price, is non-empty and has the \<open>total_quantity\<close> of its queue; keys
  are in map order; no order rests twice; every bid key is below every ask key.
\<close>

definition book_wf :: "memory \<Rightarrow> OrderBook \<Rightarrow> bool" where
  "book_wf h b =
     (list_all (level_ok h) (bids b) \<and> sorted_wrt (>) (map fst (bids b))
      \<and> list_all (level_ok h) (asks b) \<and> sorted_wrt (<) (map fst (asks b))
      \<and> distinct (resting b)
      \<and> (\<forall>kb \<in> set (map fst (bids b)). \<forall>ka \<in> set (map fst (asks b)). kb < ka))"

lemma rest_order_simps [simp]:
  "level_price (rest_order a h level) = price (h a)"
  "orders (rest_order a h level) = orders level @ [a]"
  "total_quantity (rest_order a h level) = total_quantity level + remaining (h a)"
  by (simp_all add: rest_order_def remaining_def)

lemma default_level_simps [simp]:
  "orders default_level = []" "total_quantity default_level = 0"
  by (simp_all add: default_level_def)

lemma level_at_keys:
  "set (map fst (level_at prec p f levels)) = insert p (set (map fst levels))"
  by (induction prec p f levels rule: level_at.induct) auto

lemma level_at_sorted_less:
  "sorted_wrt (<) (map fst levels) \<Longrightarrow> sorted_wrt (<) (map fst (level_at (<) p f levels))"
proof (induction levels)
  case Nil
  show ?case by simp
next
  case (Cons kl levels)
  obtain k level where kl: "kl = (k, level)" by (cases kl)
  from Cons show ?case
    using level_at_keys [of "(<)" p f levels]
    by (auto simp: kl)
qed

lemma level_at_sorted_greater:
  "sorted_wrt (>) (map fst levels) \<Longrightarrow> sorted_wrt (>) (map fst (level_at (>) p f levels))"
proof (induction levels)
  case Nil
  show ?case by simp
next
  case (Cons kl levels)
  obtain k level where kl: "kl = (k, level)" by (cases kl)
  from Cons show ?case
    using level_at_keys [of "(>)" p f levels]
    by (auto simp: kl)
qed

lemma level_at_resting:
  "set (resting_of (level_at prec p (rest_order a h) levels)) = insert a (set (resting_of levels))"
  by (induction prec p "rest_order a h" levels rule: level_at.induct) auto

lemma level_at_distinct:
  "distinct (resting_of levels) \<Longrightarrow> a \<notin> set (resting_of levels) \<Longrightarrow>
   distinct (resting_of (level_at prec p (rest_order a h) levels))"
  using level_at_resting [of prec p a h]
  by (induction prec p "rest_order a h" levels rule: level_at.induct) auto

lemma level_at_ok:
  "list_all (level_ok h) levels \<Longrightarrow>
   list_all (level_ok h) (level_at prec (price (h a)) (rest_order a h) levels)"
  by (induction prec "price (h a)" "rest_order a h" levels rule: level_at.induct)
     (auto simp: level_ok_def)

lemma match_side_summary:
  assumes "list_all (level_ok h) levels" "distinct (resting_of levels)"
    "a \<notin> set (resting_of levels)" "sorted_wrt prec (map fst levels)"
    and m: "match_side cb s a (h, levels, n, env) = (h', ls, n', e')"
  shows "list_all (level_ok h') ls" "distinct (resting_of ls)" "a \<notin> set (resting_of ls)"
    "sorted_wrt prec (map fst ls)" "set (resting_of ls) \<subseteq> set (resting_of levels)"
    "set (map fst ls) \<subseteq> set (map fst levels)"
    "\<forall>x. x \<noteq> a \<longrightarrow> x \<notin> set (resting_of levels) \<longrightarrow> h' x = h x"
    "same_static h h'"
    "filled (h' a) < quantity (h' a) \<Longrightarrow>
       ls = [] \<or> (type (h a) = LIMIT \<and>
                  (if s = BUY then price (h a) < fst (hd ls) else fst (hd ls) < price (h a)))"
proof -
  from match_side_outer_inv [OF assms(1-4), of cb s n env] m
  have o: "outer_inv a prec h levels (h', ls, n', e')" by simp
  then show ok: "list_all (level_ok h') ls" and "distinct (resting_of ls)"
    and "a \<notin> set (resting_of ls)"
    and "sorted_wrt prec (map fst ls)" and "set (resting_of ls) \<subseteq> set (resting_of levels)"
    and "set (map fst ls) \<subseteq> set (map fst levels)"
    and "\<forall>x. x \<noteq> a \<longrightarrow> x \<notin> set (resting_of levels) \<longrightarrow> h' x = h x"
    by (simp_all add: outer_inv_def)
  from match_side_static [of h "(h, levels, n, env)" cb s a] m
  show st: "same_static h h'" by simp
  then have f: "type (h' a) = type (h a)" "price (h' a) = price (h a)"
    by (auto simp: same_static_def dest: static_fields)
  assume r: "filled (h' a) < quantity (h' a)"
  show "ls = [] \<or> (type (h a) = LIMIT \<and>
                  (if s = BUY then price (h a) < fst (hd ls) else fst (hd ls) < price (h a)))"
  proof (cases ls)
    case Nil
    then show ?thesis by simp
  next
    case (Cons kl rest)
    obtain k level where kl: "kl = (k, level)" by (cases kl)
    from ok Cons kl have lp: "level_price level = k" by (simp add: level_ok_def)
    from match_side_exit [of a cb s "(h, levels, n, env)"] m r Cons
    have "price_stop s a (h', ls, n', e')" by (simp add: side_cond_def)
    then show ?thesis using f lp by (auto simp: price_stop_def Cons kl split: if_splits)
  qed
qed

lemma sorted_less_hd:
  "sorted_wrt (<) (map fst ls) \<Longrightarrow> ls \<noteq> [] \<Longrightarrow> (p :: int) < fst (hd ls) \<Longrightarrow>
   \<forall>k \<in> set (map fst ls). p < k"
  by (cases ls) auto

lemma sorted_greater_hd:
  "sorted_wrt (>) (map fst ls) \<Longrightarrow> ls \<noteq> [] \<Longrightarrow> fst (hd ls) < (p :: int) \<Longrightarrow>
   \<forall>k \<in> set (map fst ls). k < p"
  by (cases ls) auto

lemma book_wf_resting:
  assumes "book_wf h b" "a \<notin> set (resting b)"
  shows "distinct (resting_of (bids b))" "distinct (resting_of (asks b))"
    "set (resting_of (bids b)) \<inter> set (resting_of (asks b)) = {}"
    "a \<notin> set (resting_of (bids b))" "a \<notin> set (resting_of (asks b))"
  using assms by (auto simp: book_wf_def resting_def)

text \<open>What \<open>match_order\<close> leaves behind.\<close>

definition matched ::
  "addr \<Rightarrow> memory \<Rightarrow> OrderBook \<Rightarrow> memory \<Rightarrow> OrderBook \<Rightarrow> bool" where
  "matched a h b h1 b1 =
     (book_wf h1 b1
      \<and> a \<notin> set (resting b1)
      \<and> set (resting b1) \<subseteq> set (resting b)
      \<and> (\<forall>x. x \<noteq> a \<longrightarrow> x \<notin> set (resting b) \<longrightarrow> h1 x = h x)
      \<and> same_static h h1
      \<and> (status (h1 a) = FILLED) = (quantity (h1 a) \<le> filled (h1 a))
      \<and> (if side (h a) = BUY
          then bids b1 = bids b
               \<and> (status (h1 a) \<noteq> FILLED \<longrightarrow> asks b1 = [] \<or>
                    (type (h a) = LIMIT \<and> (\<forall>k \<in> set (map fst (asks b1)). price (h a) < k)))
          else asks b1 = asks b
               \<and> (status (h1 a) \<noteq> FILLED \<longrightarrow> bids b1 = [] \<or>
                    (type (h a) = LIMIT \<and> (\<forall>k \<in> set (map fst (bids b1)). k < price (h a))))))"

lemma match_order_matched:
  assumes inv: "book_wf h b" and na: "a \<notin> set (resting b)"
    and m: "match_order cb a (h, b, env) = (h1, b1, env1)"
  shows "matched a h b h1 b1"
proof (cases "side (h a) = BUY")
  case True
  obtain h' ls n' e'
    where ms: "match_side cb BUY a (h, asks b, total_trades b, env) = (h', ls, n', e')"
    by (cases "match_side cb BUY a (h, asks b, total_trades b, env)")
  note r = book_wf_resting [OF inv na]
  from inv have ia: "list_all (level_ok h) (asks b)" "sorted_wrt (<) (map fst (asks b))"
    and ib: "list_all (level_ok h) (bids b)" "sorted_wrt (>) (map fst (bids b))"
    and cr: "\<forall>kb \<in> set (map fst (bids b)). \<forall>ka \<in> set (map fst (asks b)). kb < ka"
    by (simp_all add: book_wf_def)
  note s = match_side_summary [OF ia(1) r(2) r(5) ia(2) ms]
  from match_order_BUY [OF True ms] m
  have h1: "h1 = h'(a := (h' a)\<lparr>status := (if filled (h' a) \<ge> quantity (h' a) then FILLED
                else if filled (h' a) > 0 then PARTIAL else PENDING)\<rparr>)"
    and b1: "b1 = b\<lparr>asks := ls, total_trades := n'\<rparr>" by simp_all
  have rem: "\<And>c. remaining (h1 c) = remaining (h' c)" by (simp add: h1 remaining_def)
  have oka: "list_all (level_ok h1) ls" using s(1) rem by (rule levels_ok_cong)
  have "\<And>c. c \<in> set (resting_of (bids b)) \<Longrightarrow> remaining (h1 c) = remaining (h c)"
    using s(7) r by (auto simp: rem)
  with ib(1) have okb: "list_all (level_ok h1) (bids b)" by (rule levels_ok_cong)
  have cr1: "\<forall>kb \<in> set (map fst (bids b)). \<forall>ka \<in> set (map fst ls). kb < ka"
    using cr s(6) by blast
  have dj: "set (resting_of (bids b)) \<inter> set (resting_of ls) = {}"
    using r(3) s(5) by blast
  have inv1: "book_wf h1 b1"
    unfolding book_wf_def resting_def b1
    using oka okb ib(2) s(2,4) r(1) cr1 dj by simp
  have st: "same_static h h1" using s(8) by (simp add: h1 same_static_def)
  have ex: "status (h1 a) \<noteq> FILLED \<longrightarrow> ls = [] \<or>
             (type (h a) = LIMIT \<and> (\<forall>k \<in> set (map fst ls). price (h a) < k))"
  proof
    assume "status (h1 a) \<noteq> FILLED"
    then have "filled (h' a) < quantity (h' a)" by (simp add: h1 split: if_splits)
    from s(9) [OF this] sorted_less_hd [OF s(4)] show "ls = [] \<or>
             (type (h a) = LIMIT \<and> (\<forall>k \<in> set (map fst ls). price (h a) < k))"
      by auto
  qed
  have fr: "\<forall>x. x \<noteq> a \<longrightarrow> x \<notin> set (resting b) \<longrightarrow> h1 x = h x"
    using s(7) by (simp add: h1 resting_def)
  show ?thesis
    unfolding matched_def
    using inv1 st ex fr True s(3,5) r(4)
    by (auto simp: b1 resting_def h1)
next
  case False
  obtain h' ls n' e'
    where ms: "match_side cb SELL a (h, bids b, total_trades b, env) = (h', ls, n', e')"
    by (cases "match_side cb SELL a (h, bids b, total_trades b, env)")
  note r = book_wf_resting [OF inv na]
  from inv have ia: "list_all (level_ok h) (asks b)" "sorted_wrt (<) (map fst (asks b))"
    and ib: "list_all (level_ok h) (bids b)" "sorted_wrt (>) (map fst (bids b))"
    and cr: "\<forall>kb \<in> set (map fst (bids b)). \<forall>ka \<in> set (map fst (asks b)). kb < ka"
    by (simp_all add: book_wf_def)
  note s = match_side_summary [OF ib(1) r(1) r(4) ib(2) ms]
  from match_order_SELL [OF False ms] m
  have h1: "h1 = h'(a := (h' a)\<lparr>status := (if filled (h' a) \<ge> quantity (h' a) then FILLED
                else if filled (h' a) > 0 then PARTIAL else PENDING)\<rparr>)"
    and b1: "b1 = b\<lparr>bids := ls, total_trades := n'\<rparr>" by simp_all
  have rem: "\<And>c. remaining (h1 c) = remaining (h' c)" by (simp add: h1 remaining_def)
  have okb: "list_all (level_ok h1) ls" using s(1) rem by (rule levels_ok_cong)
  have "\<And>c. c \<in> set (resting_of (asks b)) \<Longrightarrow> remaining (h1 c) = remaining (h c)"
    using s(7) r by (auto simp: rem)
  with ia(1) have oka: "list_all (level_ok h1) (asks b)" by (rule levels_ok_cong)
  have cr1: "\<forall>kb \<in> set (map fst ls). \<forall>ka \<in> set (map fst (asks b)). kb < ka"
    using cr s(6) by blast
  have dj: "set (resting_of ls) \<inter> set (resting_of (asks b)) = {}"
    using r(3) s(5) by blast
  have inv1: "book_wf h1 b1"
    unfolding book_wf_def resting_def b1
    using oka okb ia(2) s(2,4) r(2) cr1 dj by simp
  have st: "same_static h h1" using s(8) by (simp add: h1 same_static_def)
  have ex: "status (h1 a) \<noteq> FILLED \<longrightarrow> ls = [] \<or>
             (type (h a) = LIMIT \<and> (\<forall>k \<in> set (map fst ls). k < price (h a)))"
  proof
    assume "status (h1 a) \<noteq> FILLED"
    then have "filled (h' a) < quantity (h' a)" by (simp add: h1 split: if_splits)
    from s(9) [OF this] sorted_greater_hd [OF s(4)] show "ls = [] \<or>
             (type (h a) = LIMIT \<and> (\<forall>k \<in> set (map fst ls). k < price (h a)))"
      by auto
  qed
  have fr: "\<forall>x. x \<noteq> a \<longrightarrow> x \<notin> set (resting b) \<longrightarrow> h1 x = h x"
    using s(7) by (simp add: h1 resting_def)
  show ?thesis
    unfolding matched_def
    using inv1 st ex fr False s(3,5) r(5)
    by (auto simp: b1 resting_def h1)
qed

lemma book_wf_cong:
  assumes "book_wf h b" and "\<And>c. remaining (h' c) = remaining (h c)"
  shows "book_wf h' b"
proof -
  from assms have "list_all (level_ok h') (bids b)" "list_all (level_ok h') (asks b)"
    by (auto simp: book_wf_def intro: levels_ok_cong)
  with assms(1) show ?thesis by (simp add: book_wf_def)
qed

lemma book_wfI:
  assumes "list_all (level_ok h) (bids b)" "sorted_wrt (>) (map fst (bids b))"
    "list_all (level_ok h) (asks b)" "sorted_wrt (<) (map fst (asks b))"
    "distinct (resting_of (bids b))" "distinct (resting_of (asks b))"
    "set (resting_of (bids b)) \<inter> set (resting_of (asks b)) = {}"
    "\<forall>kb \<in> set (map fst (bids b)). \<forall>ka \<in> set (map fst (asks b)). kb < ka"
  shows "book_wf h b"
  using assms by (simp add: book_wf_def resting_def)

lemma book_wf_init: "book_wf h (OrderBook_init nm)"
  by (simp add: book_wf_def OrderBook_init_def resting_def)

lemma process_market_order_wf:
  assumes inv: "book_wf h b" and na: "a \<notin> set (resting b)"
    and p: "process_market_order cb a (h, b, env) = (h', b', env')"
  shows "book_wf h' b' \<and> a \<notin> set (resting b') \<and> set (resting b') \<subseteq> set (resting b)"
proof -
  obtain h1 b1 env1 where m: "match_order cb a (h, b, env) = (h1, b1, env1)"
    by (cases "match_order cb a (h, b, env)")
  from match_order_matched [OF inv na m]
  have w: "book_wf h1 b1" and r: "a \<notin> set (resting b1)" "set (resting b1) \<subseteq> set (resting b)"
    by (simp_all add: matched_def)
  from p m have h': "h' = (if status (h1 a) \<noteq> FILLED then h1(a := (h1 a)\<lparr>status := CANCELLED\<rparr>)
                           else h1)" and b': "b' = b1"
    by (simp_all add: process_market_order_def)
  have "\<And>c. remaining (h' c) = remaining (h1 c)" by (simp add: h' remaining_def)
  with w have "book_wf h' b1" by (rule book_wf_cong)
  with r show ?thesis by (simp add: b')
qed

lemma add_order_wf:
  assumes inv: "book_wf h b" and na: "a \<notin> set (resting b)"
    and p: "add_order cb a (h, b, env) = (h', b', env')"
  shows "book_wf h' b'"
proof (cases "type (h a) = MARKET")
  case True
  with p have "process_market_order cb a (h, b, env) = (h', b', env')"
    by (simp add: add_order_def)
  from process_market_order_wf [OF inv na this] show ?thesis by simp
next
  case False
  then have lim: "type (h a) = LIMIT" by (cases "type (h a)") simp_all
  obtain h1 b1 env1 where m: "match_order cb a (h, b, env) = (h1, b1, env1)"
    by (cases "match_order cb a (h, b, env)")
  note md = match_order_matched [OF inv na m, unfolded matched_def]
  from md have w: "book_wf h1 b1" and r: "a \<notin> set (resting b1)" by simp_all
  from md have "same_static h h1" by simp
  then have f: "side (h1 a) = side (h a)" "price (h1 a) = price (h a)"
    by (auto simp: same_static_def dest: static_fields)
  show ?thesis
  proof (cases "status (h1 a) = FILLED")
    case True
    with p m False w show ?thesis by (simp add: add_order_def)
  next
    case nf: False
    from w have ia: "list_all (level_ok h1) (asks b1)" "sorted_wrt (<) (map fst (asks b1))"
      and ib: "list_all (level_ok h1) (bids b1)" "sorted_wrt (>) (map fst (bids b1))"
      and d: "distinct (resting_of (bids b1))" "distinct (resting_of (asks b1))"
        "set (resting_of (bids b1)) \<inter> set (resting_of (asks b1)) = {}"
      and cr: "\<forall>kb \<in> set (map fst (bids b1)). \<forall>ka \<in> set (map fst (asks b1)). kb < ka"
      by (auto simp: book_wf_def resting_def)
    from r have ra: "a \<notin> set (resting_of (bids b1))" "a \<notin> set (resting_of (asks b1))"
      by (simp_all add: resting_def)
    show ?thesis
    proof (cases "side (h a) = BUY")
      case True
      define B where "B = level_at (>) (price (h1 a)) (rest_order a h1) (bids b1)"
      from p m False nf f True have h': "h' = h1" and b': "b' = b1\<lparr>bids := B\<rparr>"
        by (auto simp add: add_order_def B_def)
      from md True nf lim have pa: "\<forall>k \<in> set (map fst (asks b1)). price (h1 a) < k"
        by (auto simp: f)
      have k: "set (map fst B) = insert (price (h1 a)) (set (map fst (bids b1)))"
        unfolding B_def by (rule level_at_keys)
      have cr': "\<forall>kb \<in> set (map fst B). \<forall>ka \<in> set (map fst (asks b1)). kb < ka"
        unfolding k using cr pa by blast
      have rs: "set (resting_of B) = insert a (set (resting_of (bids b1)))"
        unfolding B_def by (rule level_at_resting)
      have dj: "set (resting_of B) \<inter> set (resting_of (asks b1)) = {}"
        unfolding rs using d(3) ra by blast
      have okB: "list_all (level_ok h1) B"
        unfolding B_def by (rule level_at_ok [OF ib(1)])
      have soB: "sorted_wrt (>) (map fst B)"
        unfolding B_def by (rule level_at_sorted_greater [OF ib(2)])
      have dB: "distinct (resting_of B)"
        unfolding B_def by (rule level_at_distinct [OF d(1) ra(1)])
      have sel: "bids (b1\<lparr>bids := B\<rparr>) = B" "asks (b1\<lparr>bids := B\<rparr>) = asks b1" by simp_all
      show ?thesis
        unfolding h' b'
        by (rule book_wfI; unfold sel) (fact okB soB ia d(2) dB dj cr')+
    next
      case sell: False
      define A where "A = level_at (<) (price (h1 a)) (rest_order a h1) (asks b1)"
      from p m False nf f sell have h': "h' = h1" and b': "b' = b1\<lparr>asks := A\<rparr>"
        by (auto simp add: add_order_def A_def)
      from md sell nf lim have pa: "\<forall>k \<in> set (map fst (bids b1)). k < price (h1 a)"
        by (auto simp: f)
      have k: "set (map fst A) = insert (price (h1 a)) (set (map fst (asks b1)))"
        unfolding A_def by (rule level_at_keys)
      have cr': "\<forall>kb \<in> set (map fst (bids b1)). \<forall>ka \<in> set (map fst A). kb < ka"
        unfolding k using cr pa by blast
      have rs: "set (resting_of A) = insert a (set (resting_of (asks b1)))"
        unfolding A_def by (rule level_at_resting)
      have dj: "set (resting_of (bids b1)) \<inter> set (resting_of A) = {}"
        unfolding rs using d(3) ra by blast
      have okA: "list_all (level_ok h1) A"
        unfolding A_def by (rule level_at_ok [OF ia(1)])
      have soA: "sorted_wrt (<) (map fst A)"
        unfolding A_def by (rule level_at_sorted_less [OF ia(2)])
      have dA: "distinct (resting_of A)"
        unfolding A_def by (rule level_at_distinct [OF d(2) ra(2)])
      have sel: "asks (b1\<lparr>asks := A\<rparr>) = A" "bids (b1\<lparr>asks := A\<rparr>) = bids b1" by simp_all
      show ?thesis
        unfolding h' b'
        by (rule book_wfI; unfold sel) (fact okA soA ib d(1) dA dj cr')+
    qed
  qed
qed

text \<open>
  The invariant as the specification words it: every level's \<open>total_quantity\<close> is the sum of
  the open quantities of its queue, no level is empty, and when both sides are non-empty the
  highest bid (the first key of \<open>bids\<close>) is below the lowest ask; then \<open>best_bid()\<close> is below
  \<open>best_ask()\<close> as well.
\<close>

definition book_invariant :: "memory \<Rightarrow> OrderBook \<Rightarrow> bool" where
  "book_invariant h b =
     ((\<forall>(k, level) \<in> set (bids b) \<union> set (asks b).
         total_quantity level = (\<Sum>c\<leftarrow>orders level. quantity (h c) - filled (h c))
         \<and> orders level \<noteq> [])
      \<and> (bids b \<noteq> [] \<and> asks b \<noteq> [] \<longrightarrow>
            fst (hd (bids b)) < fst (hd (asks b)) \<and> best_bid b < best_ask b))"

lemma sorted_greater_last:
  "sorted_wrt (>) (map fst ls) \<Longrightarrow> ls \<noteq> [] \<Longrightarrow> fst (last ls) \<le> (fst (hd ls) :: int)"
  by (cases ls) (auto simp: less_imp_le)

lemma book_wf_invariant:
  assumes "book_wf h b"
  shows "book_invariant h b"
proof -
  from assms have l: "list_all (level_ok h) (bids b)" "list_all (level_ok h) (asks b)"
    and s: "sorted_wrt (>) (map fst (bids b))"
    and cr: "\<forall>kb \<in> set (map fst (bids b)). \<forall>ka \<in> set (map fst (asks b)). kb < ka"
    by (simp_all add: book_wf_def)
  from l have 1: "\<forall>(k, level) \<in> set (bids b) \<union> set (asks b).
         total_quantity level = (\<Sum>c\<leftarrow>orders level. quantity (h c) - filled (h c))
         \<and> orders level \<noteq> []"
    by (auto simp: list_all_iff level_ok_def queue_quantity_def remaining_def)
  have 2: "fst (hd (bids b)) < fst (hd (asks b)) \<and> best_bid b < best_ask b"
    if n: "bids b \<noteq> []" "asks b \<noteq> []"
  proof -
    from n cr have c: "fst (hd (bids b)) < fst (hd (asks b))" by simp
    from sorted_greater_last [OF s n(1)] c n show ?thesis
      by (simp add: best_bid_def best_ask_def)
  qed
  from 1 2 show ?thesis unfolding book_invariant_def by blast
qed

definition partial_fill_memory :: memory where
  "partial_fill_memory =
     (zero_memory(Slot 0 1 := mk_order 1 1000000 100 1000 SELL LIMIT 1))
       (Slot 0 2 := mk_order 2 1000000 30 2000 BUY LIMIT 2)"

definition partial_fill_book :: OrderBook where
  "partial_fill_book =
     \<lparr>book_symbol = ''TEST'', bids = [],
      asks = [(1000000, \<lparr>level_price = 1000000, orders = [Slot 0 1], total_quantity = 100\<rparr>)],
      total_trades = 0\<rparr>"

section \<open>MARKET orders\<close>

lemma set_tl_subset: "x \<in> set (tl xs) \<Longrightarrow> x \<in> set xs"
  by (cases xs) simp_all

lemma fill_front_orders:
  "set (orders (fst (snd (fill_front cb s a st)))) \<subseteq> set (orders (fst (snd st)))"
  by (cases st) (auto simp: fill_front_def Let_def split_def dest: set_tl_subset)

lemma match_level_orders:
  "set (orders (fst (snd (match_level cb s a st)))) \<subseteq> set (orders (fst (snd st)))"
  by (rule match_level_rule
        [where Inv = "\<lambda>st'. set (orders (fst (snd st'))) \<subseteq> set (orders (fst (snd st)))"])
     (use fill_front_orders in \<open>blast+\<close>)

lemma sweep_level_resting:
  assumes "side_cond a st"
  shows "set (resting_of (fst (snd (sweep_level cb s a st)))) \<subseteq> set (resting_of (fst (snd st)))"
proof -
  obtain h levels n env where st: "st = (h, levels, n, env)" by (cases st)
  obtain h' level' n' env'
    where m: "match_level cb s a (h, snd (hd levels), n, env) = (h', level', n', env')"
    by (cases "match_level cb s a (h, snd (hd levels), n, env)")
  from match_level_orders [of cb s a "(h, snd (hd levels), n, env)"] m
  have sub: "set (orders level') \<subseteq> set (orders (snd (hd levels)))" by simp
  show ?thesis
  proof (cases levels)
    case Nil
    with assms show ?thesis by (simp add: st side_cond_def)
  next
    case (Cons kl rest)
    obtain k level where kl: "kl = (k, level)" by (cases kl)
    from m sub show ?thesis by (auto simp: st sweep_level_def Cons kl)
  qed
qed

lemma match_side_resting:
  "set (resting_of (fst (snd (match_side cb s a st)))) \<subseteq> set (resting_of (fst (snd st)))"
  by (rule match_side_rule
        [where Inv = "\<lambda>st'. set (resting_of (fst (snd st'))) \<subseteq> set (resting_of (fst (snd st)))"])
     (use sweep_level_resting in \<open>blast+\<close>)

lemma match_side_empty: "match_side cb s a (h, [], n, env) = (h, [], n, env)"
  by (simp add: match_side.simps side_cond_def)

lemma match_side_market_exit:
  assumes "type (h a) = MARKET" and "match_side cb s a (h, levels, n, env) = (h', ls, n', e')"
    and "filled (h' a) < quantity (h' a)"
  shows "ls = []"
proof -
  from match_side_static [of h "(h, levels, n, env)" cb s a] assms(2)
  have "same_static h h'" by simp
  then have "type (h' a) = type (h a)" by (auto simp: same_static_def dest: static_fields)
  with assms(1) have "\<not> price_stop s a (h', ls, n', e')" by (simp add: price_stop_def)
  with match_side_exit [of a cb s "(h, levels, n, env)"] assms(2,3) show ?thesis
    by (simp add: side_cond_def)
qed

text \<open>A MARKET BUY of 10, the only order in memory.\<close>

definition no_liquidity_memory :: memory where
  "no_liquidity_memory = zero_memory(Slot 0 1 := mk_order 1 0 10 1000 BUY MARKET 1)"

lemma match_order_resting:
  assumes "match_order cb a (h, b, env) = (h1, b1, env1)"
  shows "set (resting b1) \<subseteq> set (resting b)"
    and "if side (h a) = BUY then bids b1 = bids b else asks b1 = asks b"
proof -
  show "set (resting b1) \<subseteq> set (resting b)"
  proof (cases "side (h a) = BUY")
    case True
    obtain h' ls n' e'
      where ms: "match_side cb BUY a (h, asks b, total_trades b, env) = (h', ls, n', e')"
      by (cases "match_side cb BUY a (h, asks b, total_trades b, env)")
    from match_side_resting [of cb BUY a "(h, asks b, total_trades b, env)"] ms
    have "set (resting_of ls) \<subseteq> set (resting_of (asks b))" by simp
    with match_order_BUY [OF True ms] assms show ?thesis by (auto simp: resting_def)
  next
    case False
    obtain h' ls n' e'
      where ms: "match_side cb SELL a (h, bids b, total_trades b, env) = (h', ls, n', e')"
      by (cases "match_side cb SELL a (h, bids b, total_trades b, env)")
    from match_side_resting [of cb SELL a "(h, bids b, total_trades b, env)"] ms
    have "set (resting_of ls) \<subseteq> set (resting_of (bids b))" by simp
    with match_order_SELL [OF False ms] assms show ?thesis by (auto simp: resting_def)
  qed
  show "if side (h a) = BUY then bids b1 = bids b else asks b1 = asks b"
    using assms by (auto simp: match_order_def split: prod.splits if_splits)
qed

lemma match_order_market_exit:
  assumes "type (h a) = MARKET" and "match_order cb a (h, b, env) = (h1, b1, env1)"
  shows "(status (h1 a) = FILLED) = (quantity (h1 a) \<le> filled (h1 a))"
    and "filled (h1 a) < quantity (h1 a) \<Longrightarrow> (if side (h a) = BUY then asks b1 else bids b1) = []"
proof -
  show "(status (h1 a) = FILLED) = (quantity (h1 a) \<le> filled (h1 a))"
    using assms(2) by (auto simp: match_order_def split: prod.splits if_splits)
  assume r: "filled (h1 a) < quantity (h1 a)"
  show "(if side (h a) = BUY then asks b1 else bids b1) = []"
  proof (cases "side (h a) = BUY")
    case True
    obtain h' ls n' e'
      where ms: "match_side cb BUY a (h, asks b, total_trades b, env) = (h', ls, n', e')"
      by (cases "match_side cb BUY a (h, asks b, total_trades b, env)")
    from match_order_BUY [OF True ms] assms(2) r
    have "filled (h' a) < quantity (h' a)" and "asks b1 = ls" by auto
    with match_side_market_exit [OF assms(1) ms] True show ?thesis by simp
  next
    case False
    obtain h' ls n' e'
      where ms: "match_side cb SELL a (h, bids b, total_trades b, env) = (h', ls, n', e')"
      by (cases "match_side cb SELL a (h, bids b, total_trades b, env)")
    from match_order_SELL [OF False ms] assms(2) r
    have "filled (h' a) < quantity (h' a)" and "bids b1 = ls" by auto
    with match_side_market_exit [OF assms(1) ms] False show ?thesis by simp
  qed
qed

lemma match_order_nothing_opposite:
  assumes "(if side (h a) = BUY then asks b else bids b) = []"
  shows "match_order cb a (h, b, env) =
           (h(a := (h a)\<lparr>status := (if filled (h a) \<ge> quantity (h a) then FILLED
                                      else if filled (h a) > 0 then PARTIAL else PENDING)\<rparr>),
            b, env)"
proof (cases "side (h a) = BUY")
  case True
  with assms have e: "asks b = []" by simp
  have ms: "match_side cb BUY a (h, asks b, total_trades b, env) = (h, [], total_trades b, env)"
    by (simp add: e match_side_empty)
  have "b\<lparr>asks := asks b, total_trades := total_trades b\<rparr> = b" by simp
  then have bb: "b\<lparr>asks := [], total_trades := total_trades b\<rparr> = b" unfolding e .
  show ?thesis
    using match_order_BUY [where h = h and a = a and cb = cb and b = b and env = env
        and h' = h and ls = "[]" and n' = "total_trades b" and e' = env] True ms bb
    by simp
next
  case False
  with assms have e: "bids b = []" by simp
  have ms: "match_side cb SELL a (h, bids b, total_trades b, env) = (h, [], total_trades b, env)"
    by (simp add: e match_side_empty)
  have "b\<lparr>bids := bids b, total_trades := total_trades b\<rparr> = b" by simp
  then have bb: "b\<lparr>bids := [], total_trades := total_trades b\<rparr> = b" unfolding e .
  show ?thesis
    using match_order_SELL [where h = h and a = a and cb = cb and b = b and env = env
        and h' = h and ls = "[]" and n' = "total_trades b" and e' = env] False ms bb
    by simp
qed

text \<open>
  C8. For a MARKET order with \<open>filled = 0\<close> and a positive quantity (the contract of
  \<open>add_order\<close>) against an empty opposite side, \<open>add_order\<close> returns with the order
  CANCELLED, \<open>filled\<close> still 0, the book (and so \<open>total_trades\<close>) unchanged and the callback
  not called. Every MARKET order that is not fully filled when \<open>add_order\<close> returns is
  CANCELLED and has emptied the opposite side, and no MARKET order is put into the book:
  its own side is unchanged and the opposite side only loses orders.
\<close>

theorem market_order_cancelled:
  assumes "type (h a) = MARKET"
  shows "(case add_order cb a (h, b, env) of (h', b', env') \<Rightarrow>
           ((if side (h a) = BUY then asks b else bids b) = [] \<and> filled (h a) = 0
              \<and> 0 < quantity (h a) \<longrightarrow>
                status (h' a) = CANCELLED \<and> filled (h' a) = 0 \<and> b' = b \<and> env' = env
                \<and> h' = h(a := (h a)\<lparr>status := CANCELLED\<rparr>))
           \<and> (filled (h' a) < quantity (h' a) \<longrightarrow>
                status (h' a) = CANCELLED
                \<and> (if side (h a) = BUY then asks b' else bids b') = [])
           \<and> (if side (h a) = BUY then bids b' = bids b else asks b' = asks b)
           \<and> set (resting b') \<subseteq> set (resting b))"
proof -
  obtain h1 b1 env1 where m: "match_order cb a (h, b, env) = (h1, b1, env1)"
    by (cases "match_order cb a (h, b, env)")
  have ao: "add_order cb a (h, b, env) =
      (if status (h1 a) \<noteq> FILLED then h1(a := (h1 a)\<lparr>status := CANCELLED\<rparr>) else h1, b1, env1)"
    using assms m by (simp add: add_order_def process_market_order_def)
  note r = match_order_resting [OF m]
  note x = match_order_market_exit [OF assms m]
  have 1: "status (h1 a) = CANCELLED \<and> filled (h1 a) = 0 \<and> b1 = b \<and> env1 = env
           \<and> h1(a := (h1 a)\<lparr>status := CANCELLED\<rparr>) = h(a := (h a)\<lparr>status := CANCELLED\<rparr>)
           \<or> status (h1 a) \<noteq> FILLED \<and> filled (h1 a) = 0 \<and> b1 = b \<and> env1 = env
           \<and> h1(a := (h1 a)\<lparr>status := CANCELLED\<rparr>) = h(a := (h a)\<lparr>status := CANCELLED\<rparr>)"
    if "(if side (h a) = BUY then asks b else bids b) = []" "filled (h a) = 0" "0 < quantity (h a)"
    using match_order_nothing_opposite [where h = h and a = a and b = b and cb = cb and env = env]
      m that by auto
  show ?thesis
    unfolding ao using r x 1 by (auto split: if_splits)
qed

text \<open>A MARKET BUY of 10 on the empty book.\<close>

theorem market_order_witness:
  "type (no_liquidity_memory (Slot 0 1)) = MARKET
   \<and> (case add_order (Some record_trade) (Slot 0 1)
              (no_liquidity_memory, OrderBook_init ''TEST'', [])
       of (h', b', trades) \<Rightarrow>
            status (h' (Slot 0 1)) = CANCELLED \<and> filled (h' (Slot 0 1)) = 0 \<and> trades = []
            \<and> b' = OrderBook_init ''TEST'')"
proof -
  have t: "type (no_liquidity_memory (Slot 0 1)) = MARKET"
    by (simp add: no_liquidity_memory_def mk_order_def)
  have f: "side (no_liquidity_memory (Slot 0 1)) = BUY"
    "filled (no_liquidity_memory (Slot 0 1)) = 0" "0 < quantity (no_liquidity_memory (Slot 0 1))"
    "asks (OrderBook_init ''TEST'') = []"
    by (simp_all add: no_liquidity_memory_def mk_order_def OrderBook_init_def)
  from market_order_cancelled [where h = no_liquidity_memory and a = "Slot 0 1"
      and cb = "Some record_trade" and b = "OrderBook_init ''TEST''" and env = "[]"] t f
  show ?thesis by (auto split: prod.splits)
qed

section \<open>The trades of a match\<close>






















section \<open>Status and fill\<close>

text \<open>
  The status of an order against its fill: \<open>0 \<le> filled \<le> quantity\<close> with a positive
  quantity; FILLED exactly when \<open>filled = quantity\<close>; CANCELLED only on a MARKET order that
  is not fully filled; and, unless the order is CANCELLED, PARTIAL exactly when
  \<open>0 < filled < quantity\<close> and PENDING exactly when \<open>filled = 0\<close>. A resting order is
  moreover open and not CANCELLED.
\<close>

definition order_ok :: "Order \<Rightarrow> bool" where
  "order_ok ord =
     (0 \<le> filled ord \<and> filled ord \<le> quantity ord \<and> 0 < quantity ord
      \<and> (status ord = FILLED \<longleftrightarrow> filled ord = quantity ord)
      \<and> (status ord = CANCELLED \<longrightarrow> type ord = MARKET \<and> filled ord < quantity ord)
      \<and> (status ord \<noteq> CANCELLED \<longrightarrow>
            (status ord = PARTIAL \<longleftrightarrow> 0 < filled ord \<and> filled ord < quantity ord)
            \<and> (status ord = PENDING \<longleftrightarrow> filled ord = 0)))"

definition resting_ok :: "Order \<Rightarrow> bool" where
  "resting_ok ord = (order_ok ord \<and> filled ord < quantity ord \<and> status ord \<noteq> CANCELLED)"

lemma order_ok_by_fill:
  assumes "0 \<le> filled ord" "filled ord \<le> quantity ord" "0 < quantity ord"
    and "status ord = (if filled ord \<ge> quantity ord then FILLED
                       else if filled ord > 0 then PARTIAL else PENDING)"
  shows "order_ok ord"
  using assms by (auto simp: order_ok_def split: if_splits)

lemma fill_front_step:
  assumes oc: "orders level = c # cs" and ca: "c \<noteq> a"
    and ff: "fill_front cb s a (h, level, n, env) = (h', level', n', env')"
  shows "h' a = (h a)\<lparr>filled := filled (h a) + min (remaining (h a)) (remaining (h c))\<rparr>"
    and "h' c = (h c)\<lparr>filled := filled (h c) + min (remaining (h a)) (remaining (h c)),
              status := (if quantity (h c) \<le> filled (h c) + min (remaining (h a)) (remaining (h c))
                         then FILLED else PARTIAL)\<rparr>"
    and "\<forall>x. x \<noteq> a \<longrightarrow> x \<noteq> c \<longrightarrow> h' x = h x"
    and "orders level' =
           (if quantity (h c) \<le> filled (h c) + min (remaining (h a)) (remaining (h c))
            then cs else c # cs)"
  using assms
  by (auto simp: fill_front_def Let_def split_def remaining_def split: if_splits)

text \<open>The orders of a level during the inner loop.\<close>

definition status_inv ::
  "addr \<Rightarrow> PriceLevel \<Rightarrow> memory \<times> PriceLevel \<times> 64 word \<times> 'e \<Rightarrow> bool" where
  "status_inv a level0 = (\<lambda>(h, level, n, env).
     (\<exists>k. orders level = drop k (orders level0))
     \<and> (\<forall>c \<in> set (orders level0). order_ok (h c))
     \<and> (\<forall>c \<in> set (orders level). resting_ok (h c))
     \<and> 0 \<le> filled (h a) \<and> filled (h a) \<le> quantity (h a))"

lemma fill_front_status_inv:
  assumes na: "a \<notin> set (orders level0)" and d: "distinct (orders level0)"
    and i: "status_inv a level0 st" and c: "level_cond a st"
  shows "status_inv a level0 (fill_front cb s a st)"
proof -
  obtain h level n env where st: "st = (h, level, n, env)" by (cases st)
  obtain h' level' n' env'
    where ff: "fill_front cb s a (h, level, n, env) = (h', level', n', env')"
    by (cases "fill_front cb s a (h, level, n, env)")
  from c st obtain c cs where oc: "orders level = c # cs"
    by (cases "orders level") (auto simp: level_cond_def)
  from c st have ra: "filled (h a) < quantity (h a)" by (simp add: level_cond_def)
  from i st obtain k where k: "orders level = drop k (orders level0)"
    by (auto simp: status_inv_def)
  from i st have ok0: "\<forall>x \<in> set (orders level0). order_ok (h x)"
    and rk: "\<forall>x \<in> set (orders level). resting_ok (h x)"
    and fa: "0 \<le> filled (h a)"
    by (auto simp: status_inv_def)
  from k oc have cin: "c \<in> set (orders level0)" by (metis in_set_dropD list.set_intros(1))
  with na have ca: "c \<noteq> a" by auto
  from k oc d have dcs: "distinct (c # cs)" by (metis distinct_drop)
  from k oc have sub: "set cs \<subseteq> set (orders level0)"
    by (metis set_drop_subset set_subset_Cons subset_trans)
  from k oc have "cs = drop (Suc k) (orders level0)" by (metis drop_Cons_tl)
  then have ex: "\<exists>j. cs = drop j (orders level0)" by blast
  from k oc have exc: "\<exists>j. c # cs = drop j (orders level0)" by auto
  define t where "t = min (remaining (h a)) (remaining (h c))"
  note s = fill_front_step [OF oc ca ff, folded t_def]
  from rk oc have rc: "resting_ok (h c)" by simp
  then have okc: "order_ok (h c)" and rc': "filled (h c) < quantity (h c)"
    and nc: "status (h c) \<noteq> CANCELLED"
    by (simp_all add: resting_ok_def)
  from ra rc' have tp: "0 < t" "t \<le> remaining (h a)" "t \<le> remaining (h c)"
    by (simp_all add: t_def remaining_def)
  have a': "0 \<le> filled (h' a)" "filled (h' a) \<le> quantity (h' a)"
    using tp fa by (simp_all add: s(1) remaining_def)
  have c': "order_ok (h' c)"
    using okc tp by (auto simp: s(2) order_ok_def remaining_def)
  have c'': "\<not> quantity (h c) \<le> filled (h c) + t \<Longrightarrow> resting_ok (h' c)"
    using c' by (simp add: resting_ok_def s(2))
  have oth: "\<forall>x \<in> set (orders level0). x \<noteq> c \<longrightarrow> h' x = h x"
    using s(3) na by auto
  have ok0': "\<forall>x \<in> set (orders level0). order_ok (h' x)"
    using ok0 oth c' by (metis)
  have rcs: "\<forall>x \<in> set cs. resting_ok (h' x)"
  proof
    fix x assume x: "x \<in> set cs"
    with dcs have "x \<noteq> c" by auto
    moreover from x sub na have "x \<noteq> a" by auto
    ultimately have "h' x = h x" using s(3) by simp
    with rk oc x show "resting_ok (h' x)" by simp
  qed
  show ?thesis
    unfolding st ff status_inv_def
    using ok0' a' rcs c'' ex exc by (auto simp: s(4))
qed

lemma match_level_status_inv:
  assumes "a \<notin> set (orders level)" and "distinct (orders level)"
    and "\<forall>c \<in> set (orders level). resting_ok (h c)"
    and "0 \<le> filled (h a)" "filled (h a) \<le> quantity (h a)"
  shows "status_inv a level (match_level cb s a (h, level, n, env))"
proof (rule match_level_rule [where Inv = "status_inv a level"])
  show "status_inv a level (h, level, n, env)"
    using assms(3-5) by (auto simp: status_inv_def resting_ok_def intro: exI [of _ 0])
qed (rule fill_front_status_inv [OF assms(1,2)])

definition side_status_inv ::
  "addr \<Rightarrow> (Price \<times> PriceLevel) list
     \<Rightarrow> memory \<times> (Price \<times> PriceLevel) list \<times> 64 word \<times> 'e \<Rightarrow> bool" where
  "side_status_inv a levels0 = (\<lambda>(h, levels, n, env).
     (\<forall>c \<in> set (resting_of levels0). order_ok (h c))
     \<and> (\<forall>c \<in> set (resting_of levels). resting_ok (h c))
     \<and> 0 \<le> filled (h a) \<and> filled (h a) \<le> quantity (h a))"

lemma sweep_level_status_inv:
  assumes na0: "a \<notin> set (resting_of levels0)"
    and i: "outer_inv a prec h0 levels0 st \<and> side_status_inv a levels0 st"
    and c: "side_cond a st"
  shows "outer_inv a prec h0 levels0 (sweep_level cb s a st)
         \<and> side_status_inv a levels0 (sweep_level cb s a st)"
proof
  from i c show "outer_inv a prec h0 levels0 (sweep_level cb s a st)"
    by (simp add: sweep_level_outer_inv)
  obtain h levels n env where st: "st = (h, levels, n, env)" by (cases st)
  from c st obtain k level rest where lv: "levels = (k, level) # rest"
    by (cases levels) (auto simp: side_cond_def)
  obtain h' level' n' env'
    where m: "match_level cb s a (h, level, n, env) = (h', level', n', env')"
    by (cases "match_level cb s a (h, level, n, env)")
  from i st lv have ok: "level_ok h (k, level)"
    and d: "distinct (orders level @ resting_of rest)"
    and na: "a \<notin> set (orders level)" "a \<notin> set (resting_of rest)"
    by (auto simp: outer_inv_def)
  from i st lv have ok0: "\<forall>x \<in> set (resting_of levels0). order_ok (h x)"
    and rl: "\<forall>x \<in> set (orders level). resting_ok (h x)"
    and rr: "\<forall>x \<in> set (resting_of rest). resting_ok (h x)"
    and fa: "0 \<le> filled (h a)" "filled (h a) \<le> quantity (h a)"
    by (auto simp: side_status_inv_def)
  from ok have tq: "total_quantity level = queue_quantity h (orders level)"
    by (simp add: level_ok_def)
  from d have dl: "distinct (orders level)" by simp
  from match_level_inner_inv [OF na(1) dl tq, of cb s n env] m
  have fr: "\<forall>x. x \<noteq> a \<longrightarrow> x \<notin> set (orders level) \<longrightarrow> h' x = h x"
    by (auto simp: inner_inv_def)
  from match_level_status_inv [OF na(1) dl rl fa, of cb s n env] m
  have okl: "\<forall>x \<in> set (orders level). order_ok (h' x)"
    and rl': "\<forall>x \<in> set (orders level'). resting_ok (h' x)"
    and fa': "0 \<le> filled (h' a)" "filled (h' a) \<le> quantity (h' a)"
    by (auto simp: status_inv_def)
  have ok0': "\<forall>x \<in> set (resting_of levels0). order_ok (h' x)"
  proof
    fix x assume x: "x \<in> set (resting_of levels0)"
    show "order_ok (h' x)"
    proof (cases "x \<in> set (orders level)")
      case True
      with okl show ?thesis by simp
    next
      case False
      with x na0 fr have "h' x = h x" by auto
      with ok0 x show ?thesis by simp
    qed
  qed
  have rr': "\<forall>x \<in> set (resting_of rest). resting_ok (h' x)"
  proof
    fix x assume x: "x \<in> set (resting_of rest)"
    with d na fr have "h' x = h x" by auto
    with rr x show "resting_ok (h' x)" by simp
  qed
  have sw: "sweep_level cb s a st =
      (h', if orders level' = [] then rest else (k, level') # rest, n', env')"
    by (simp add: st lv sweep_level_def m)
  show "side_status_inv a levels0 (sweep_level cb s a st)"
    unfolding sw side_status_inv_def using ok0' rr' rl' fa' by auto
qed

lemma match_side_status_inv:
  assumes "list_all (level_ok h) levels" "distinct (resting_of levels)"
    "a \<notin> set (resting_of levels)" "sorted_wrt prec (map fst levels)"
    and "\<forall>c \<in> set (resting_of levels). resting_ok (h c)"
    and "0 \<le> filled (h a)" "filled (h a) \<le> quantity (h a)"
  shows "side_status_inv a levels (match_side cb s a (h, levels, n, env))"
proof -
  have "outer_inv a prec h levels (match_side cb s a (h, levels, n, env))
        \<and> side_status_inv a levels (match_side cb s a (h, levels, n, env))"
  proof (rule match_side_rule
      [where Inv = "\<lambda>st. outer_inv a prec h levels st \<and> side_status_inv a levels st"])
    show "outer_inv a prec h levels (h, levels, n, env)
          \<and> side_status_inv a levels (h, levels, n, env)"
      using assms by (auto simp: outer_inv_init side_status_inv_def resting_ok_def)
  qed (rule sweep_level_status_inv [OF assms(3)])
  then show ?thesis by simp
qed

lemma match_order_status:
  assumes wf: "book_wf h b" and rk: "\<forall>c \<in> set (resting b). resting_ok (h c)"
    and na: "a \<notin> set (resting b)"
    and f: "0 \<le> filled (h a)" "filled (h a) \<le> quantity (h a)" "0 < quantity (h a)"
    and m: "match_order cb a (h, b, env) = (h1, b1, env1)"
  shows "order_ok (h1 a) \<and> status (h1 a) \<noteq> CANCELLED
         \<and> (\<forall>c \<in> set (resting b). order_ok (h1 c))
         \<and> (\<forall>c \<in> set (resting b1). resting_ok (h1 c))"
proof (cases "side (h a) = BUY")
  case True
  obtain h' ls n' e'
    where ms: "match_side cb BUY a (h, asks b, total_trades b, env) = (h', ls, n', e')"
    by (cases "match_side cb BUY a (h, asks b, total_trades b, env)")
  note r = book_wf_resting [OF wf na]
  from wf have io: "list_all (level_ok h) (asks b)" "sorted_wrt (<) (map fst (asks b))"
    by (simp_all add: book_wf_def)
  from rk have ro: "\<forall>c \<in> set (resting_of (asks b)). resting_ok (h c)"
    and rn: "\<forall>c \<in> set (resting_of (bids b)). resting_ok (h c)"
    by (simp_all add: resting_def)
  note s = match_side_summary [OF io(1) r(2) r(5) io(2) ms]
  from match_side_status_inv [OF io(1) r(2) r(5) io(2) ro f(1,2), of cb BUY "total_trades b" env] ms
  have oko: "\<forall>c \<in> set (resting_of (asks b)). order_ok (h' c)"
    and rls: "\<forall>c \<in> set (resting_of ls). resting_ok (h' c)"
    and fa: "0 \<le> filled (h' a)" "filled (h' a) \<le> quantity (h' a)"
    by (simp_all add: side_status_inv_def)
  from match_order_BUY [OF True ms] m
  have h1: "h1 = h'(a := (h' a)\<lparr>status := (if filled (h' a) \<ge> quantity (h' a) then FILLED
                else if filled (h' a) > 0 then PARTIAL else PENDING)\<rparr>)"
    and b1: "b1 = b\<lparr>asks := ls, total_trades := n'\<rparr>" by simp_all
  from s(8) have q: "quantity (h' a) = quantity (h a)"
    by (auto simp: same_static_def dest: static_fields)
  have oa: "order_ok (h1 a)"
    by (rule order_ok_by_fill) (use fa q f(3) in \<open>simp_all add: h1\<close>)
  have nca: "status (h1 a) \<noteq> CANCELLED" by (simp add: h1)
  have own: "\<forall>c \<in> set (resting_of (bids b)). h1 c = h c"
    using s(7) r by (auto simp: h1)
  have opp: "\<forall>c \<in> set (resting_of (asks b)). h1 c = h' c"
    using r by (auto simp: h1)
  have 3: "\<forall>c \<in> set (resting b). order_ok (h1 c)"
    using own opp oko rn by (auto simp: resting_def resting_ok_def)
  have "\<forall>c \<in> set (resting_of ls). h1 c = h' c"
    using s(3) by (auto simp: h1)
  with rls own rn have 4: "\<forall>c \<in> set (resting b1). resting_ok (h1 c)"
    by (auto simp: resting_def b1)
  from oa nca 3 4 show ?thesis by simp
next
  case False
  obtain h' ls n' e'
    where ms: "match_side cb SELL a (h, bids b, total_trades b, env) = (h', ls, n', e')"
    by (cases "match_side cb SELL a (h, bids b, total_trades b, env)")
  note r = book_wf_resting [OF wf na]
  from wf have io: "list_all (level_ok h) (bids b)" "sorted_wrt (>) (map fst (bids b))"
    by (simp_all add: book_wf_def)
  from rk have ro: "\<forall>c \<in> set (resting_of (bids b)). resting_ok (h c)"
    and rn: "\<forall>c \<in> set (resting_of (asks b)). resting_ok (h c)"
    by (simp_all add: resting_def)
  note s = match_side_summary [OF io(1) r(1) r(4) io(2) ms]
  from match_side_status_inv [OF io(1) r(1) r(4) io(2) ro f(1,2), of cb SELL "total_trades b" env] ms
  have oko: "\<forall>c \<in> set (resting_of (bids b)). order_ok (h' c)"
    and rls: "\<forall>c \<in> set (resting_of ls). resting_ok (h' c)"
    and fa: "0 \<le> filled (h' a)" "filled (h' a) \<le> quantity (h' a)"
    by (simp_all add: side_status_inv_def)
  from match_order_SELL [OF False ms] m
  have h1: "h1 = h'(a := (h' a)\<lparr>status := (if filled (h' a) \<ge> quantity (h' a) then FILLED
                else if filled (h' a) > 0 then PARTIAL else PENDING)\<rparr>)"
    and b1: "b1 = b\<lparr>bids := ls, total_trades := n'\<rparr>" by simp_all
  from s(8) have q: "quantity (h' a) = quantity (h a)"
    by (auto simp: same_static_def dest: static_fields)
  have oa: "order_ok (h1 a)"
    by (rule order_ok_by_fill) (use fa q f(3) in \<open>simp_all add: h1\<close>)
  have nca: "status (h1 a) \<noteq> CANCELLED" by (simp add: h1)
  have own: "\<forall>c \<in> set (resting_of (asks b)). h1 c = h c"
    using s(7) r by (auto simp: h1)
  have opp: "\<forall>c \<in> set (resting_of (bids b)). h1 c = h' c"
    using r by (auto simp: h1)
  have 3: "\<forall>c \<in> set (resting b). order_ok (h1 c)"
    using own opp oko rn by (auto simp: resting_def resting_ok_def)
  have "\<forall>c \<in> set (resting_of ls). h1 c = h' c"
    using s(3) by (auto simp: h1)
  with rls own rn have 4: "\<forall>c \<in> set (resting b1). resting_ok (h1 c)"
    by (auto simp: resting_def b1)
  from oa nca 3 4 show ?thesis by simp
qed

lemma add_order_cases:
  assumes "match_order cb a (h, b, env) = (h1, b1, env1)"
  shows "add_order cb a (h, b, env) =
     (if type (h a) = MARKET
      then (if status (h1 a) \<noteq> FILLED then h1(a := (h1 a)\<lparr>status := CANCELLED\<rparr>) else h1,
            b1, env1)
      else if status (h1 a) = FILLED then (h1, b1, env1)
      else if side (h1 a) = BUY
      then (h1, b1\<lparr>bids := level_at (>) (price (h1 a)) (rest_order a h1) (bids b1)\<rparr>, env1)
      else (h1, b1\<lparr>asks := level_at (<) (price (h1 a)) (rest_order a h1) (asks b1)\<rparr>, env1))"
  using assms by (simp add: add_order_def process_market_order_def)

text \<open>A SELL of 50 rests at 1000000; a MARKET BUY of 100 arrives.\<close>

definition partial_cancel_memory :: memory where
  "partial_cancel_memory =
     (zero_memory(Slot 0 1 := mk_order 1 1000000 50 1000 SELL LIMIT 1))
       (Slot 0 2 := mk_order 2 0 100 2000 BUY MARKET 2)"

definition partial_cancel_book :: OrderBook where
  "partial_cancel_book =
     \<lparr>book_symbol = ''TEST'', bids = [],
      asks = [(1000000, \<lparr>level_price = 1000000, orders = [Slot 0 1], total_quantity = 50\<rparr>)],
      total_trades = 0\<rparr>"

text \<open>
  C6 (as the code has it). Let the book be well formed with every resting order open,
  uncancelled and of consistent status, let \<open>S\<close> be orders of consistent status (those
  passed so far), and let \<open>add_order\<close> receive an order that is not resting, with
  \<open>filled = 0\<close> and a positive quantity. After the call the order and every order of \<open>S\<close>
  have \<open>0 \<le> filled \<le> quantity\<close> and a consistent status, where CANCELLED stands on a
  MARKET order left with \<open>filled < quantity\<close> (also when \<open>0 < filled\<close>), the book is again
  well formed with its resting orders open and consistent, and no other order was
  written. \<open>cancel_order\<close> writes nothing.
\<close>

theorem order_status_consistent:
  assumes wf: "book_wf h b" and rk: "\<forall>c \<in> set (resting b). resting_ok (h c)"
    and seen: "\<forall>x \<in> S. order_ok (h x)"
    and na: "a \<notin> set (resting b)" and f0: "filled (h a) = 0" and q: "0 < quantity (h a)"
  shows "(case add_order cb a (h, b, env) of (h', b', env') \<Rightarrow>
           (\<forall>x \<in> insert a S. order_ok (h' x))
           \<and> book_wf h' b'
           \<and> (\<forall>c \<in> set (resting b'). resting_ok (h' c))
           \<and> (\<forall>x. x \<noteq> a \<longrightarrow> x \<notin> set (resting b) \<longrightarrow> h' x = h x))"
proof -
  obtain h1 b1 env1 where m: "match_order cb a (h, b, env) = (h1, b1, env1)"
    by (cases "match_order cb a (h, b, env)")
  obtain h' b' env' where ao: "add_order cb a (h, b, env) = (h', b', env')"
    by (cases "add_order cb a (h, b, env)")
  from f0 q have f: "0 \<le> filled (h a)" "filled (h a) \<le> quantity (h a)" by simp_all
  from match_order_status [OF wf rk na f q m]
  have oa: "order_ok (h1 a)" and nca: "status (h1 a) \<noteq> CANCELLED"
    and okr: "\<forall>c \<in> set (resting b). order_ok (h1 c)"
    and rk1: "\<forall>c \<in> set (resting b1). resting_ok (h1 c)" by simp_all
  note md = match_order_matched [OF wf na m, unfolded matched_def]
  from md have na1: "a \<notin> set (resting b1)"
    and fr: "\<forall>x. x \<noteq> a \<longrightarrow> x \<notin> set (resting b) \<longrightarrow> h1 x = h x"
    and ss: "same_static h h1" by simp_all
  from ss have ty: "type (h1 a) = type (h a)"
    by (auto simp: same_static_def dest: static_fields)
  from add_order_wf [OF wf na ao] have wf': "book_wf h' b'" .
  note c = add_order_cases [OF m, unfolded ao]
  have hx: "\<forall>x. x \<noteq> a \<longrightarrow> h' x = h1 x"
    using c by (auto split: if_splits)
  have oa': "order_ok (h' a)"
  proof (cases "type (h a) = MARKET \<and> status (h1 a) \<noteq> FILLED")
    case True
    with c have "h' a = (h1 a)\<lparr>status := CANCELLED\<rparr>" by simp
    with oa True ty show ?thesis by (auto simp: order_ok_def)
  next
    case False
    with c have "h' a = h1 a" by (auto split: if_splits)
    with oa show ?thesis by simp
  qed
  have 1: "\<forall>x \<in> insert a S. order_ok (h' x)"
  proof
    fix x assume x: "x \<in> insert a S"
    show "order_ok (h' x)"
    proof (cases "x = a")
      case True
      with oa' show ?thesis by simp
    next
      case xa: False
      with hx have e: "h' x = h1 x" by simp
      show ?thesis
      proof (cases "x \<in> set (resting b)")
        case True
        with okr e show ?thesis by simp
      next
        case False
        with fr xa e have "h' x = h x" by simp
        with seen x xa show ?thesis by simp
      qed
    qed
  qed
  have rb': "set (resting b') \<subseteq> set (resting b1)
             \<or> (set (resting b') = insert a (set (resting b1)) \<and> h' = h1
                 \<and> status (h1 a) \<noteq> FILLED)"
    using c by (auto simp: resting_def level_at_resting split: if_splits)
  have ra: "resting_ok (h1 a)" if "status (h1 a) \<noteq> FILLED"
    using oa nca that by (auto simp: resting_ok_def order_ok_def)
  have 3: "\<forall>x \<in> set (resting b'). resting_ok (h' x)"
  proof
    fix x assume x: "x \<in> set (resting b')"
    from rb' show "resting_ok (h' x)"
    proof
      assume "set (resting b') \<subseteq> set (resting b1)"
      with x have x1: "x \<in> set (resting b1)" by auto
      with na1 have "x \<noteq> a" by auto
      with hx rk1 x1 show ?thesis by simp
    next
      assume i: "set (resting b') = insert a (set (resting b1)) \<and> h' = h1
                 \<and> status (h1 a) \<noteq> FILLED"
      with x rk1 ra show ?thesis by auto
    qed
  qed
  have 4: "\<forall>x. x \<noteq> a \<longrightarrow> x \<notin> set (resting b) \<longrightarrow> h' x = h x"
    using hx fr by simp
  from 1 wf' 3 4 show ?thesis unfolding ao by simp
qed

text \<open>
  C6 as stated fails: the MARKET BUY of 100 takes the 50 on offer and is then CANCELLED,
  with \<open>0 < filled < quantity\<close> and a status that is not PARTIAL.
\<close>

theorem partial_fill_cancelled:
  "(case add_order (Some record_trade) (Slot 0 2) (partial_cancel_memory, partial_cancel_book, [])
    of (h', b', trades) \<Rightarrow>
         filled (h' (Slot 0 2)) = 50 \<and> quantity (h' (Slot 0 2)) = 100
         \<and> status (h' (Slot 0 2)) = CANCELLED \<and> status (h' (Slot 0 2)) \<noteq> PARTIAL)"
  by (simp add: partial_cancel_memory_def partial_cancel_book_def zero_memory_def book_eval)

text \<open>The same call under the corrected reading: both orders are consistent afterwards.\<close>

theorem order_status_witness:
  "book_wf partial_cancel_memory partial_cancel_book
   \<and> resting_ok (partial_cancel_memory (Slot 0 1))
   \<and> Slot 0 2 \<notin> set (resting partial_cancel_book)
   \<and> filled (partial_cancel_memory (Slot 0 2)) = 0
   \<and> 0 < quantity (partial_cancel_memory (Slot 0 2))
   \<and> (case add_order (Some record_trade) (Slot 0 2) (partial_cancel_memory, partial_cancel_book, [])
       of (h', b', trades) \<Rightarrow>
            order_ok (h' (Slot 0 2)) \<and> order_ok (h' (Slot 0 1))
            \<and> status (h' (Slot 0 2)) = CANCELLED \<and> status (h' (Slot 0 1)) = FILLED)"
proof -
  have w: "book_wf partial_cancel_memory partial_cancel_book"
    by (simp add: book_wf_def partial_cancel_book_def partial_cancel_memory_def resting_def
          level_ok_def remaining_def mk_order_def)
  have r1: "resting_ok (partial_cancel_memory (Slot 0 1))"
    by (simp add: resting_ok_def order_ok_def partial_cancel_memory_def mk_order_def)
  then have r: "\<forall>c \<in> set (resting partial_cancel_book). resting_ok (partial_cancel_memory c)"
    by (simp add: partial_cancel_book_def resting_def)
  from r1 have s: "\<forall>x \<in> {Slot 0 1}. order_ok (partial_cancel_memory x)"
    by (simp add: resting_ok_def)
  have n: "Slot 0 2 \<notin> set (resting partial_cancel_book)"
    by (simp add: partial_cancel_book_def resting_def)
  have f: "filled (partial_cancel_memory (Slot 0 2)) = 0"
    "0 < quantity (partial_cancel_memory (Slot 0 2))"
    by (simp_all add: partial_cancel_memory_def mk_order_def)
  have e: "(case add_order (Some record_trade) (Slot 0 2)
                  (partial_cancel_memory, partial_cancel_book, [])
            of (h', b', trades) \<Rightarrow>
                 status (h' (Slot 0 2)) = CANCELLED \<and> status (h' (Slot 0 1)) = FILLED)"
    by (simp add: partial_cancel_memory_def partial_cancel_book_def zero_memory_def book_eval)
  from order_status_consistent [OF w r s n f, of "Some record_trade" "[]"] w r1 n f e
  show ?thesis by (auto split: prod.splits)
qed

section \<open>Two runs on the same ticks: the memory of the arena\<close>

text \<open>
  The arena takes its blocks from \<open>std::aligned_alloc\<close> and does not initialise them: two
  engines start on different memories. \<open>agree X h1 h2\<close>: the memories \<open>h1\<close> and \<open>h2\<close>
  hold the same order records at the addresses in \<open>X\<close>. Matching reads the incoming order
  and the orders resting in the book only, so two runs that agree there stay in step.
\<close>

definition agree :: "addr set \<Rightarrow> memory \<Rightarrow> memory \<Rightarrow> bool" where
  "agree X h1 h2 = (\<forall>x\<in>X. h1 x = h2 x)"

definition sim :: "addr set \<Rightarrow> memory \<times> 'a \<Rightarrow> memory \<times> 'a \<Rightarrow> bool" where
  "sim X st1 st2 = (agree X (fst st1) (fst st2) \<and> snd st1 = snd st2)"

lemma agree_upd: "agree X h1 h2 \<Longrightarrow> agree X (h1(x := v)) (h2(x := v))"
  by (simp add: agree_def)

lemma agree_insert: "agree X h1 h2 \<Longrightarrow> agree (insert x X) (h1(x := v)) (h2(x := v))"
  by (simp add: agree_def)

lemma level_cond_sim: "sim X st1 st2 \<Longrightarrow> a \<in> X \<Longrightarrow> level_cond a st1 = level_cond a st2"
  by (cases st1; cases st2) (auto simp: sim_def agree_def level_cond_def)

lemma fill_front_sim:
  assumes "sim X st1 st2" and "a \<in> X" and "set (orders (fst (snd st1))) \<subseteq> X"
    and "level_cond a st1"
  shows "sim X (fill_front cb s a st1) (fill_front cb s a st2)"
proof -
  obtain h1 level n env where st1: "st1 = (h1, level, n, env)" by (cases st1)
  obtain h2 where st2: "st2 = (h2, level, n, env)"
    using assms(1) by (cases st2) (simp add: sim_def st1)
  from assms(4) have ne: "orders level \<noteq> []" by (simp add: st1 level_cond_def)
  with assms(3) have c: "hd (orders level) \<in> X" by (cases "orders level") (simp_all add: st1)
  from assms(1) have ag: "agree X h1 h2" by (simp add: sim_def st1 st2)
  from ag assms(2) have a: "h2 a = h1 a" by (simp add: agree_def)
  from ag c have h: "h2 (hd (orders level)) = h1 (hd (orders level))" by (simp add: agree_def)
  show ?thesis
    unfolding st1 st2 sim_def fill_front_def Let_def
    by (simp add: a h split_def agree_upd ag)
qed

lemma match_level_sim:
  "sim X st1 st2 \<Longrightarrow> a \<in> X \<Longrightarrow> set (orders (fst (snd st1))) \<subseteq> X \<Longrightarrow>
   sim X (match_level cb s a st1) (match_level cb s a st2)"
proof (induction cb s a st1 arbitrary: st2 rule: match_level.induct)
  case (1 cb s a st)
  from level_cond_sim [OF "1.prems"(1,2)] have c: "level_cond a st2 = level_cond a st" by simp
  show ?case
  proof (cases "level_cond a st")
    case True
    from fill_front_sim [OF "1.prems"(1,2,3) True]
    have f: "sim X (fill_front cb s a st) (fill_front cb s a st2)" .
    from fill_front_orders [of cb s a st] "1.prems"(3)
    have o: "set (orders (fst (snd (fill_front cb s a st)))) \<subseteq> X" by blast
    from "1.IH" [OF True f "1.prems"(2) o] True c show ?thesis
      by (simp add: match_level.simps [of cb s a st] match_level.simps [of cb s a st2])
  next
    case False
    with c "1.prems"(1) show ?thesis
      by (simp add: match_level.simps [of cb s a st] match_level.simps [of cb s a st2])
  qed
qed

lemma side_cond_sim: "sim X st1 st2 \<Longrightarrow> a \<in> X \<Longrightarrow> side_cond a st1 = side_cond a st2"
  by (cases st1; cases st2) (auto simp: sim_def agree_def side_cond_def)

lemma price_stop_sim: "sim X st1 st2 \<Longrightarrow> a \<in> X \<Longrightarrow> price_stop s a st1 = price_stop s a st2"
  by (cases st1; cases st2) (auto simp: sim_def agree_def price_stop_def)

lemma sweep_level_sim:
  assumes "sim X st1 st2" and "a \<in> X" and "set (resting_of (fst (snd st1))) \<subseteq> X"
    and "side_cond a st1"
  shows "sim X (sweep_level cb s a st1) (sweep_level cb s a st2)"
proof -
  obtain h1 levels n env where st1: "st1 = (h1, levels, n, env)" by (cases st1)
  obtain h2 where st2: "st2 = (h2, levels, n, env)"
    using assms(1) by (cases st2) (simp add: sim_def st1)
  from assms(4) obtain k level rest where ls: "levels = (k, level) # rest"
    by (cases levels) (auto simp: st1 side_cond_def)
  from assms(1) have s: "sim X (h1, level, n, env) (h2, level, n, env)"
    by (simp add: sim_def st1 st2)
  from assms(3) have o: "set (orders (fst (snd (h1, level, n, env)))) \<subseteq> X"
    by (simp add: st1 ls)
  obtain g1 l1 n1 e1 where m1: "match_level cb s a (h1, level, n, env) = (g1, l1, n1, e1)"
    by (cases "match_level cb s a (h1, level, n, env)")
  obtain g2 l2 n2 e2 where m2: "match_level cb s a (h2, level, n, env) = (g2, l2, n2, e2)"
    by (cases "match_level cb s a (h2, level, n, env)")
  from match_level_sim [OF s assms(2) o, of cb s]
  have "agree X g1 g2 \<and> l2 = l1 \<and> n2 = n1 \<and> e2 = e1"
    by (auto simp: sim_def m1 m2)
  then show ?thesis
    by (simp add: st1 st2 ls sweep_level_def sim_def m1 m2)
qed

lemma match_side_sim:
  "sim X st1 st2 \<Longrightarrow> a \<in> X \<Longrightarrow> set (resting_of (fst (snd st1))) \<subseteq> X \<Longrightarrow>
   sim X (match_side cb s a st1) (match_side cb s a st2)"
proof (induction cb s a st1 arbitrary: st2 rule: match_side.induct)
  case (1 cb s a st)
  from side_cond_sim [OF "1.prems"(1,2)] have c: "side_cond a st2 = side_cond a st" by simp
  from price_stop_sim [OF "1.prems"(1,2)] have p: "price_stop s a st2 = price_stop s a st" by simp
  show ?case
  proof (cases "side_cond a st \<and> \<not> price_stop s a st")
    case True
    then have c1: "side_cond a st" and p1: "\<not> price_stop s a st" by simp_all
    from sweep_level_sim [OF "1.prems"(1,2,3) c1]
    have f: "sim X (sweep_level cb s a st) (sweep_level cb s a st2)" .
    from sweep_level_resting [OF c1, of cb s] "1.prems"(3)
    have o: "set (resting_of (fst (snd (sweep_level cb s a st)))) \<subseteq> X" by blast
    from "1.IH" [OF c1 p1 f "1.prems"(2) o] c1 p1 c p show ?thesis
      by (simp add: match_side.simps [of cb s a st] match_side.simps [of cb s a st2])
  next
    case False
    with c p "1.prems"(1) show ?thesis
      by (auto simp add: match_side.simps [of cb s a st] match_side.simps [of cb s a st2])
  qed
qed

lemma match_order_sim:
  assumes "agree X h1 h2" and "a \<in> X" and "set (resting b) \<subseteq> X"
  shows "sim X (match_order cb a (h1, b, env)) (match_order cb a (h2, b, env))"
proof -
  from assms(1,2) have a: "h2 a = h1 a" by (simp add: agree_def)
  show ?thesis
  proof (cases "side (h1 a) = BUY")
    case True
    obtain g1 ls1 n1 e1
      where m1: "match_side cb BUY a (h1, asks b, total_trades b, env) = (g1, ls1, n1, e1)"
      by (cases "match_side cb BUY a (h1, asks b, total_trades b, env)")
    obtain g2 ls2 n2 e2
      where m2: "match_side cb BUY a (h2, asks b, total_trades b, env) = (g2, ls2, n2, e2)"
      by (cases "match_side cb BUY a (h2, asks b, total_trades b, env)")
    from assms(1) have s: "sim X (h1, asks b, total_trades b, env) (h2, asks b, total_trades b, env)"
      by (simp add: sim_def)
    from assms(3) have o: "set (resting_of (fst (snd (h1, asks b, total_trades b, env)))) \<subseteq> X"
      by (simp add: resting_def)
    from match_side_sim [OF s assms(2) o, of cb BUY]
    have r: "agree X g1 g2" "ls2 = ls1" "n2 = n1" "e2 = e1"
      by (auto simp: sim_def m1 m2)
    from r(1) assms(2) have g: "g2 a = g1 a" by (simp add: agree_def)
    from True a have True2: "side (h2 a) = BUY" by simp
    show ?thesis
      unfolding match_order_BUY [OF True m1] match_order_BUY [OF True2 m2]
      by (simp add: sim_def r g agree_upd)
  next
    case False
    obtain g1 ls1 n1 e1
      where m1: "match_side cb SELL a (h1, bids b, total_trades b, env) = (g1, ls1, n1, e1)"
      by (cases "match_side cb SELL a (h1, bids b, total_trades b, env)")
    obtain g2 ls2 n2 e2
      where m2: "match_side cb SELL a (h2, bids b, total_trades b, env) = (g2, ls2, n2, e2)"
      by (cases "match_side cb SELL a (h2, bids b, total_trades b, env)")
    from assms(1) have s: "sim X (h1, bids b, total_trades b, env) (h2, bids b, total_trades b, env)"
      by (simp add: sim_def)
    from assms(3) have o: "set (resting_of (fst (snd (h1, bids b, total_trades b, env)))) \<subseteq> X"
      by (simp add: resting_def)
    from match_side_sim [OF s assms(2) o, of cb SELL]
    have r: "agree X g1 g2" "ls2 = ls1" "n2 = n1" "e2 = e1"
      by (auto simp: sim_def m1 m2)
    from r(1) assms(2) have g: "g2 a = g1 a" by (simp add: agree_def)
    from False a have False2: "side (h2 a) \<noteq> BUY" by simp
    show ?thesis
      unfolding match_order_SELL [OF False m1] match_order_SELL [OF False2 m2]
      by (simp add: sim_def r g agree_upd)
  qed
qed

lemma rest_order_agree: "g2 a = g1 a \<Longrightarrow> rest_order a g2 = rest_order a g1"
  by (rule ext) (simp add: rest_order_def)

lemma add_order_sim:
  assumes "agree X h1 h2" and "a \<in> X" and "set (resting b) \<subseteq> X"
  shows "sim X (add_order cb a (h1, b, env)) (add_order cb a (h2, b, env))"
proof -
  from assms(1,2) have a: "h2 a = h1 a" by (simp add: agree_def)
  obtain g1 b1 e1 where m1: "match_order cb a (h1, b, env) = (g1, b1, e1)"
    by (cases "match_order cb a (h1, b, env)")
  obtain g2 b2 e2 where m2: "match_order cb a (h2, b, env) = (g2, b2, e2)"
    by (cases "match_order cb a (h2, b, env)")
  from match_order_sim [OF assms, of cb env]
  have r: "agree X g1 g2" "b2 = b1" "e2 = e1"
    by (auto simp: sim_def m1 m2)
  from r(1) assms(2) have g: "g2 a = g1 a" by (simp add: agree_def)
  have ro: "rest_order a g2 = rest_order a g1"
    using g by (rule rest_order_agree [where a = a and ?g1.0 = g1 and ?g2.0 = g2])
  show ?thesis
    unfolding add_order_cases [OF m1] add_order_cases [OF m2]
    by (simp add: sim_def r a g agree_upd ro)
qed

lemma add_order_resting:
  "set (resting (fst (snd (add_order cb a (h, b, env))))) \<subseteq> insert a (set (resting b))"
proof -
  obtain g1 b1 e1 where m1: "match_order cb a (h, b, env) = (g1, b1, e1)"
    by (cases "match_order cb a (h, b, env)")
  from match_order_resting(1) [OF m1] have "set (resting b1) \<subseteq> set (resting b)" .
  then show ?thesis
    unfolding add_order_cases [OF m1]
    by (auto simp: resting_def level_at_resting)
qed

text \<open>
  Two engines are related when they differ in \<open>pool_memory\<close> only, their memories agree on
  a set of addresses, and every order resting in a book is at one of these addresses.
  \<open>submit_order\<close> keeps them related: it writes the whole order record to the slot it
  takes from the arena before \<open>add_order\<close> reads it.
\<close>

definition books_within :: "addr set \<Rightarrow> (string \<times> OrderBook) list \<Rightarrow> bool" where
  "books_within X books = (\<forall>(nm, b) \<in> set books. set (resting b) \<subseteq> X)"

definition mem_related :: "addr set \<Rightarrow> 's TickEngine \<Rightarrow> 's TickEngine \<Rightarrow> bool" where
  "mem_related X e1 e2 =
     (agree X (pool_memory e1) (pool_memory e2) \<and> books_within X (order_books e1)
      \<and> e2 = e1\<lparr>pool_memory := pool_memory e2\<rparr>)"

definition mem_rel :: "'s TickEngine \<Rightarrow> 's TickEngine \<Rightarrow> bool" where
  "mem_rel e1 e2 = (\<exists>X. mem_related X e1 e2)"

lemma mem_relatedI:
  "agree X (pool_memory e1) h2 \<Longrightarrow> books_within X (order_books e1) \<Longrightarrow>
   mem_related X e1 (e1\<lparr>pool_memory := h2\<rparr>)"
  by (simp add: mem_related_def)

lemma mem_relatedE:
  assumes "mem_related X e1 e2"
  obtains h2 where "e2 = e1\<lparr>pool_memory := h2\<rparr>" and "agree X (pool_memory e1) h2"
    and "books_within X (order_books e1)"
  using assms that unfolding mem_related_def by blast

lemma books_within_mono: "books_within X books \<Longrightarrow> X \<subseteq> Y \<Longrightarrow> books_within Y books"
  by (fastforce simp: books_within_def)

lemma books_within_nth:
  "books_within X books \<Longrightarrow> i < length books \<Longrightarrow> set (resting (snd (books ! i))) \<subseteq> X"
  unfolding books_within_def by (metis nth_mem case_prodD prod.collapse)

lemma books_within_upd:
  "books_within X books \<Longrightarrow> set (resting b) \<subseteq> X \<Longrightarrow> books_within X (books[i := (nm, b)])"
  unfolding books_within_def by (auto dest!: set_update_subset_insert [THEN subsetD])

lemma begin_index_less: "books \<noteq> [] \<Longrightarrow> begin_index first books < length books"
  by (simp add: begin_index_def Let_def)

lemma submit_order_mem:
  assumes "mem_related X e1 e2"
  shows "mem_related (insert (fst (allocate BlockSize (order_pool e1))) X)
           (submit_order first t e1) (submit_order first t e2)"
proof -
  from assms obtain h2 where e2: "e2 = e1\<lparr>pool_memory := h2\<rparr>"
    and ag: "agree X (pool_memory e1) h2" and bw: "books_within X (order_books e1)"
    by (rule mem_relatedE)
  obtain a pool1 where al: "allocate BlockSize (order_pool e1) = (a, pool1)"
    by (cases "allocate BlockSize (order_pool e1)")
  define Y where "Y = insert a X"
  define g1 where "g1 = (pool_memory e1)(a := stamped t e1)"
  define g2 where "g2 = h2(a := stamped t e1)"
  have st: "stamped t (e1\<lparr>pool_memory := h2\<rparr>) = stamped t e1" by (simp add: stamped_def)
  from ag have agY: "agree Y g1 g2" unfolding Y_def g1_def g2_def by (rule agree_insert)
  from bw have bwY: "books_within Y (order_books e1)"
    by (rule books_within_mono) (auto simp: Y_def)
  have aY: "a \<in> Y" by (simp add: Y_def)
  show ?thesis
  proof (cases "order_books e1 = []")
    case True
    define r1 where "r1 = e1\<lparr>order_pool := pool1, pool_memory := g1,
                              next_order_id := next_order_id e1 + 1\<rparr>"
    have "mem_related Y r1 (r1\<lparr>pool_memory := g2\<rparr>)"
      by (rule mem_relatedI) (simp_all add: r1_def agY bwY)
    moreover have "submit_order first t e1 = r1"
      using True by (simp add: submit_order_eq al g1_def [symmetric] r1_def)
    moreover have "submit_order first t e2 = r1\<lparr>pool_memory := g2\<rparr>"
      using True by (simp add: submit_order_eq e2 al st g2_def [symmetric] r1_def)
    ultimately show ?thesis by (simp add: Y_def al)
  next
    case False
    define i where "i = begin_index first (order_books e1)"
    define b where "b = snd (order_books e1 ! i)"
    from False have il: "i < length (order_books e1)" unfolding i_def by (rule begin_index_less)
    from books_within_nth [OF bwY il] have rb: "set (resting b) \<subseteq> Y" by (simp add: b_def)
    obtain k1 b1 ts1 where a1: "add_order (Some record_trade) a (g1, b, []) = (k1, b1, ts1)"
      by (cases "add_order (Some record_trade) a (g1, b, [])")
    obtain k2 b2 ts2 where a2: "add_order (Some record_trade) a (g2, b, []) = (k2, b2, ts2)"
      by (cases "add_order (Some record_trade) a (g2, b, [])")
    from add_order_sim [OF agY aY rb, of "Some record_trade" "[]"]
    have r: "agree Y k1 k2" "b2 = b1" "ts2 = ts1" by (auto simp: sim_def a1 a2)
    from add_order_resting [of "Some record_trade" a g1 b "[]"] rb aY
    have "set (resting b1) \<subseteq> Y" by (auto simp: a1)
    with bwY
    have bw1: "books_within Y ((order_books e1)[i := (fst (order_books e1 ! i), b1)])"
      by (rule books_within_upd)
    define r1 where "r1 = e1\<lparr>order_pool := pool1, pool_memory := k1,
                   next_order_id := next_order_id e1 + 1,
                   order_books := (order_books e1)[i := (fst (order_books e1 ! i), b1)],
                   stats := (stats e1)\<lparr>trades_executed := trades_executed (stats e1)
                                                             + of_nat (length ts1),
                                         orders_submitted := orders_submitted (stats e1) + 1\<rparr>,
                   strategies := map (\<lambda>(strategy, x). (strategy, fold (on_trade strategy) ts1 x))
                                   (strategies e1),
                   trade_log := trade_log e1 @ ts1\<rparr>"
    have "mem_related Y r1 (r1\<lparr>pool_memory := k2\<rparr>)"
      by (rule mem_relatedI) (simp_all add: r1_def r bw1)
    moreover have "submit_order first t e1 = r1"
      using False a1
      by (simp add: submit_order_eq al g1_def [symmetric] i_def [symmetric] b_def [symmetric]
            r1_def)
    moreover have "submit_order first t e2 = r1\<lparr>pool_memory := k2\<rparr>"
      using False a2 r
      by (simp add: submit_order_eq e2 al st g2_def [symmetric] i_def [symmetric]
            b_def [symmetric] r1_def)
    ultimately show ?thesis by (simp add: Y_def al)
  qed
qed

lemma mem_rel_fields:
  assumes "mem_rel e1 e2"
  shows "order_books e2 = order_books e1" and "strategies e2 = strategies e1"
    and "order_pool e2 = order_pool e1" and "next_order_id e2 = next_order_id e1"
    and "current_time e2 = current_time e1" and "stats e2 = stats e1"
    and "clock_reads e2 = clock_reads e1" and "trade_log e2 = trade_log e1"
proof -
  from assms obtain h2 where e2: "e2 = e1\<lparr>pool_memory := h2\<rparr>"
    unfolding mem_rel_def by (auto elim: mem_relatedE)
  show "order_books e2 = order_books e1" and "strategies e2 = strategies e1"
    and "order_pool e2 = order_pool e1" and "next_order_id e2 = next_order_id e1"
    and "current_time e2 = current_time e1" and "stats e2 = stats e1"
    and "clock_reads e2 = clock_reads e1" and "trade_log e2 = trade_log e1"
    by (simp_all add: e2)
qed

lemma mem_rel_upd:
  assumes "mem_rel e1 e2"
    and "\<And>h e. f (e\<lparr>pool_memory := h\<rparr>) = (f e)\<lparr>pool_memory := h\<rparr>"
    and "pool_memory (f e1) = pool_memory e1"
    and "\<And>X. books_within X (order_books e1) \<Longrightarrow> books_within X (order_books (f e1))"
  shows "mem_rel (f e1) (f e2)"
proof -
  from assms(1) obtain X h2 where e2: "e2 = e1\<lparr>pool_memory := h2\<rparr>"
    and ag: "agree X (pool_memory e1) h2" and bw: "books_within X (order_books e1)"
    unfolding mem_rel_def by (auto elim: mem_relatedE)
  from ag assms(3) have "agree X (pool_memory (f e1)) h2" by simp
  from mem_relatedI [OF this assms(4) [OF bw]] show ?thesis
    unfolding mem_rel_def e2 assms(2) by blast
qed

lemma set_state_mem: "mem_rel e1 e2 \<Longrightarrow> mem_rel (set_state i x e1) (set_state i x e2)"
  by (rule mem_rel_upd) (simp_all add: set_state_def)

lemma submit_order_mem_rel:
  "mem_rel e1 e2 \<Longrightarrow> mem_rel (submit_order first t e1) (submit_order first t e2)"
  unfolding mem_rel_def using submit_order_mem by blast

lemma run_prog_mem:
  "mem_rel e1 e2 \<Longrightarrow> mem_rel (run_prog first i p e1) (run_prog first i p e2)"
proof (induction p arbitrary: e1 e2)
  case (Done x)
  then show ?case by (simp add: set_state_mem)
next
  case (Submit x ord k)
  from Submit.prems
  have r: "mem_rel (submit_order first ord (set_state i x e1))
                   (submit_order first ord (set_state i x e2))"
    by (intro submit_order_mem_rel set_state_mem)
  from mem_rel_fields(2) [OF r]
  have s: "strategies (submit_order first ord (set_state i x e2))
           = strategies (submit_order first ord (set_state i x e1))" .
  from Submit.IH [OF rangeI r] show ?case
    by (simp add: Let_def s)
qed

lemma notify_mem:
  assumes "mem_rel e1 e2"
  shows "mem_rel (notify first tick i e1) (notify first tick i e2)"
  using run_prog_mem [OF assms] mem_rel_fields(2) [OF assms]
  by (simp add: notify_def split_def Let_def)

lemma fold_notify_mem:
  "mem_rel e1 e2 \<Longrightarrow>
   mem_rel (fold (notify first tick) is e1) (fold (notify first tick) is e2)"
  by (induction "is" arbitrary: e1 e2) (simp_all add: notify_mem)

lemma books_within_snoc:
  "books_within X books \<Longrightarrow> books_within X (books @ [(nm, OrderBook_init nm)])"
  by (simp add: books_within_def resting_def OrderBook_init_def)

lemma process_tick_mem:
  fixes e1 e2 :: "'s TickEngine"
  assumes "mem_rel e1 e2"
  shows "mem_rel (process_tick first clk tick e1) (process_tick first clk tick e2)"
proof -
  define pre where "pre = (\<lambda>e :: 's TickEngine.
      let eng1 = e\<lparr>clock_reads := clock_reads e + 1, current_time := tick_timestamp tick\<rparr>
      in (if symbol tick \<in> set (map fst (order_books eng1)) then eng1
          else eng1\<lparr>order_books := order_books eng1
                     @ [(symbol tick, OrderBook_init (symbol tick))]\<rparr>))"
  define mid where "mid = (\<lambda>e :: 's TickEngine.
      fold (notify first tick) [0..<length (strategies (pre e))] (pre e))"
  define post where "post = (\<lambda>(c :: nat) (e :: 's TickEngine).
      e\<lparr>clock_reads := clock_reads e + 1,
        stats := (stats e)\<lparr>ticks_processed := ticks_processed (stats e) + 1,
                 total_latency_ns := total_latency_ns (stats e)
                    + word_of_int (clk (clock_reads e) - clk c)\<rparr>\<rparr>)"
  have pt: "\<And>e. process_tick first clk tick e = post (clock_reads e) (mid e)"
    by (simp add: process_tick_def mid_def pre_def post_def Let_def)
  have p: "mem_rel (pre e1) (pre e2)"
    using assms
    by (rule mem_rel_upd) (auto simp: pre_def Let_def books_within_snoc)
  from mem_rel_fields(2) [OF p] have "strategies (pre e2) = strategies (pre e1)" .
  with fold_notify_mem [OF p, of first tick "[0..<length (strategies (pre e1))]"]
  have m: "mem_rel (mid e1) (mid e2)" by (simp add: mid_def)
  from mem_rel_fields(7) [OF assms] have c: "clock_reads e2 = clock_reads e1" .
  have "mem_rel (post (clock_reads e1) (mid e1)) (post (clock_reads e1) (mid e2))"
    using m by (rule mem_rel_upd) (simp_all add: post_def)
  then show ?thesis by (simp add: pt c)
qed

lemma run_backtest_mem:
  "mem_rel e1 e2 \<Longrightarrow> mem_rel (run_backtest first clk ticks e1) (run_backtest first clk ticks e2)"
  unfolding run_backtest_def
  by (induction ticks arbitrary: e1 e2) (simp_all add: process_tick_mem)

lemma add_strategy_mem:
  "add_strategy s (e\<lparr>pool_memory := h\<rparr>) = (add_strategy s e)\<lparr>pool_memory := h\<rparr>"
  by (simp add: add_strategy_def)

lemma fold_add_strategy:
  "fold add_strategy ss (e\<lparr>pool_memory := h\<rparr>) = (fold add_strategy ss e)\<lparr>pool_memory := h\<rparr>"
  by (induction ss arbitrary: e) (simp_all add: add_strategy_mem)

lemma fold_add_strategy_fields:
  "pool_memory (fold add_strategy ss e) = pool_memory e"
  "order_books (fold add_strategy ss e) = order_books e"
  by (induction ss arbitrary: e) (simp_all add: add_strategy_def)

lemma mem_rel_init:
  fixes ss :: "('s Strategy \<times> 's) list"
  shows "mem_rel (fold add_strategy ss (TickEngine_init m1)) (fold add_strategy ss (TickEngine_init m2))"
proof -
  have i: "(TickEngine_init m2 :: 's TickEngine) = (TickEngine_init m1)\<lparr>pool_memory := m2\<rparr>"
    by (simp add: TickEngine_init_def)
  have "mem_related {} (fold add_strategy ss (TickEngine_init m1 :: 's TickEngine))
          ((fold add_strategy ss (TickEngine_init m1))\<lparr>pool_memory := m2\<rparr>)"
    by (rule mem_relatedI)
       (simp_all add: agree_def fold_add_strategy_fields TickEngine_init_def books_within_def)
  then show ?thesis
    unfolding mem_rel_def i fold_add_strategy by blast
qed

text \<open>The records of the orders resting in each book, in map and queue order.\<close>

definition resting_orders :: "'s TickEngine \<Rightarrow> (string \<times> Order list) list" where
  "resting_orders eng = map (\<lambda>(nm, b). (nm, map (pool_memory eng) (resting b))) (order_books eng)"

lemma mem_rel_resting_orders:
  assumes "mem_rel e1 e2"
  shows "resting_orders e2 = resting_orders e1"
proof -
  from assms obtain X h2 where e2: "e2 = e1\<lparr>pool_memory := h2\<rparr>"
    and ag: "agree X (pool_memory e1) h2" and bw: "books_within X (order_books e1)"
    unfolding mem_rel_def by (auto elim: mem_relatedE)
  from ag bw
  have "\<And>nm b x. (nm, b) \<in> set (order_books e1) \<Longrightarrow> x \<in> set (resting b)
          \<Longrightarrow> h2 x = pool_memory e1 x"
    unfolding agree_def books_within_def by fastforce
  then show ?thesis
    by (auto simp: resting_orders_def e2)
qed

text \<open>
  C4 (as the code has it). Two runs of \<open>run_backtest\<close> on the same ticks, from two new
  engines with the same strategies added in the same order, agree on \<open>ticks_processed\<close>,
  \<open>orders_submitted\<close>, \<open>trades_executed\<close>, on the sequence of trades, on the books, on the
  records of the orders resting there and on the strategies' states, whatever the clock
  reads in either run and whatever the memory of either arena holds at the start.
  \<open>total_latency_ns\<close> is a sum of clock differences and is not determined by the ticks.
\<close>

theorem run_backtest_same_but_latency:
  "(let e1 = run_backtest first clk1 ticks (fold add_strategy ss (TickEngine_init m1));
        e2 = run_backtest first clk2 ticks (fold add_strategy ss (TickEngine_init m2))
    in ticks_processed (stats e1) = ticks_processed (stats e2)
       \<and> orders_submitted (stats e1) = orders_submitted (stats e2)
       \<and> trades_executed (stats e1) = trades_executed (stats e2)
       \<and> trade_log e1 = trade_log e2
       \<and> order_books e1 = order_books e2
       \<and> resting_orders e1 = resting_orders e2
       \<and> strategies e1 = strategies e2)"
proof -
  define e1 where "e1 = run_backtest first clk1 ticks (fold add_strategy ss (TickEngine_init m1))"
  define e where "e = run_backtest first clk2 ticks (fold add_strategy ss (TickEngine_init m1))"
  define e2 where "e2 = run_backtest first clk2 ticks (fold add_strategy ss (TickEngine_init m2))"
  have l: "same_but_latency e1 e"
    unfolding e1_def e_def by (rule run_backtest_same) (rule same_but_latency_refl)
  have m: "mem_rel e e2"
    unfolding e_def e2_def by (rule run_backtest_mem) (rule mem_rel_init)
  from same_but_latency_fields(4,1) [OF l] have "resting_orders e1 = resting_orders e"
    by (simp add: resting_orders_def)
  with same_but_latency_fields [OF l] mem_rel_fields [OF m] mem_rel_resting_orders [OF m]
  show ?thesis
    unfolding e1_def [symmetric] e2_def [symmetric] Let_def by simp
qed

text \<open>
  C4 as stated fails: on one tick and no strategy, a clock that stands still gives
  \<open>total_latency_ns = 0\<close> and a clock that advances by one between readings gives 1.
\<close>

theorem latency_not_deterministic:
  "total_latency_ns (stats (run_backtest begin_first frozen_clock [test_tick]
       (TickEngine_init zero_memory :: unit TickEngine))) = 0
   \<and> total_latency_ns (stats (run_backtest begin_first ticking_clock [test_tick]
       (TickEngine_init zero_memory :: unit TickEngine))) = 1"
  by (simp add: run_backtest_def process_tick_def TickEngine_init_def Let_def
        frozen_clock_def ticking_clock_def)

section \<open>The book invariant and the range of int64\<close>

text \<open>The range of \<open>int64_t\<close>.\<close>

definition in_int64 :: "int \<Rightarrow> bool" where
  "in_int64 x = (- (2 ^ 63) \<le> x \<and> x < 2 ^ 63)"

text \<open>
  Matching only lowers open quantities, and never below 0: \<open>rem_inv S h0\<close> compares the
  orders at the addresses \<open>S\<close> with what they were in \<open>h0\<close>, at the start of the loop.
\<close>

definition rem_inv :: "addr set \<Rightarrow> memory \<Rightarrow> memory \<times> 'x \<Rightarrow> bool" where
  "rem_inv S h0 st =
     (\<forall>x \<in> S. 0 \<le> remaining (fst st x) \<and> remaining (fst st x) \<le> remaining (h0 x))"

lemma fill_front_rem_inv:
  assumes aS: "a \<in> S" and sub: "set (orders (fst (snd st))) \<subseteq> S"
    and na: "a \<notin> set (orders (fst (snd st)))"
    and i: "rem_inv S h0 st" and c: "level_cond a st"
  shows "rem_inv S h0 (fill_front cb s a st)"
proof -
  obtain h level n env where st: "st = (h, level, n, env)" by (cases st)
  obtain h' level' n' env'
    where ff: "fill_front cb s a (h, level, n, env) = (h', level', n', env')"
    by (cases "fill_front cb s a (h, level, n, env)")
  from c st obtain c cs where oc: "orders level = c # cs"
    by (cases "orders level") (auto simp: level_cond_def)
  from na st oc have ca: "c \<noteq> a" by auto
  from sub st oc have cS: "c \<in> S" by simp
  define t where "t = min (remaining (h a)) (remaining (h c))"
  note s = fill_front_step [OF oc ca ff, folded t_def]
  from c st have "0 < remaining (h a)" by (simp add: level_cond_def remaining_def)
  moreover from i cS st have "0 \<le> remaining (h c)" by (simp add: rem_inv_def)
  ultimately have tp: "0 \<le> t" "t \<le> remaining (h a)" "t \<le> remaining (h c)"
    by (simp_all add: t_def)
  have ra: "remaining (h' a) = remaining (h a) - t" by (simp add: s(1) remaining_def)
  have rc: "remaining (h' c) = remaining (h c) - t" by (simp add: s(2) remaining_def)
  have "0 \<le> remaining (h' x) \<and> remaining (h' x) \<le> remaining (h0 x)" if x: "x \<in> S" for x
  proof -
    from i x st have ix: "0 \<le> remaining (h x)" "remaining (h x) \<le> remaining (h0 x)"
      by (simp_all add: rem_inv_def)
    show ?thesis
    proof (cases "x = a \<or> x = c")
      case True
      with ix tp ra rc show ?thesis by auto
    next
      case False
      with s(3) have "h' x = h x" by simp
      with ix show ?thesis by simp
    qed
  qed
  then show ?thesis by (simp add: rem_inv_def st ff)
qed

lemma match_level_rem_inv:
  assumes aS: "a \<in> S" and sub: "set (orders level) \<subseteq> S" and na: "a \<notin> set (orders level)"
    and i: "rem_inv S h0 (h, level, n, env)"
  shows "rem_inv S h0 (match_level cb s a (h, level, n, env))"
proof -
  have "rem_inv S h0 (match_level cb s a (h, level, n, env))
        \<and> set (orders (fst (snd (match_level cb s a (h, level, n, env))))) \<subseteq> set (orders level)"
  proof (rule match_level_rule
      [where Inv = "\<lambda>st. rem_inv S h0 st \<and> set (orders (fst (snd st))) \<subseteq> set (orders level)"])
    show "rem_inv S h0 (h, level, n, env)
          \<and> set (orders (fst (snd (h, level, n, env)))) \<subseteq> set (orders level)"
      using i by simp
  next
    fix st :: "memory \<times> PriceLevel \<times> 64 word \<times> 'a"
    assume j: "rem_inv S h0 st \<and> set (orders (fst (snd st))) \<subseteq> set (orders level)"
      and c: "level_cond a st"
    from j sub have s1: "set (orders (fst (snd st))) \<subseteq> S" by blast
    from j na have n1: "a \<notin> set (orders (fst (snd st)))" by blast
    from j have r1: "rem_inv S h0 st" by simp
    from fill_front_rem_inv [OF aS s1 n1 r1 c, of cb s] fill_front_orders [of cb s a st] j
    show "rem_inv S h0 (fill_front cb s a st)
          \<and> set (orders (fst (snd (fill_front cb s a st)))) \<subseteq> set (orders level)"
      by blast
  qed
  then show ?thesis by simp
qed

lemma sweep_level_rem_inv:
  assumes aS: "a \<in> S" and sub: "set (resting_of (fst (snd st))) \<subseteq> S"
    and na: "a \<notin> set (resting_of (fst (snd st)))"
    and i: "rem_inv S h0 st" and c: "side_cond a st"
  shows "rem_inv S h0 (sweep_level cb s a st)"
proof -
  obtain h levels n env where st: "st = (h, levels, n, env)" by (cases st)
  from c st obtain k level rest where lv: "levels = (k, level) # rest"
    by (cases levels) (auto simp: side_cond_def)
  obtain h' level' n' env'
    where m: "match_level cb s a (h, level, n, env) = (h', level', n', env')"
    by (cases "match_level cb s a (h, level, n, env)")
  from sub st lv have s1: "set (orders level) \<subseteq> S" by simp
  from na st lv have n1: "a \<notin> set (orders level)" by simp
  from i st have i1: "rem_inv S h0 (h, level, n, env)" by (simp add: rem_inv_def)
  from match_level_rem_inv [OF aS s1 n1 i1, of cb s] m
  have "rem_inv S h0 (h', level', n', env')" by simp
  then show ?thesis
    by (simp add: st lv sweep_level_def m rem_inv_def)
qed

lemma match_side_rem_inv:
  assumes aS: "a \<in> S" and sub: "set (resting_of levels) \<subseteq> S"
    and na: "a \<notin> set (resting_of levels)"
    and i: "rem_inv S h0 (h, levels, n, env)"
  shows "rem_inv S h0 (match_side cb s a (h, levels, n, env))"
proof -
  have "rem_inv S h0 (match_side cb s a (h, levels, n, env))
        \<and> set (resting_of (fst (snd (match_side cb s a (h, levels, n, env)))))
            \<subseteq> set (resting_of levels)"
  proof (rule match_side_rule
      [where Inv = "\<lambda>st. rem_inv S h0 st
                         \<and> set (resting_of (fst (snd st))) \<subseteq> set (resting_of levels)"])
    show "rem_inv S h0 (h, levels, n, env)
          \<and> set (resting_of (fst (snd (h, levels, n, env)))) \<subseteq> set (resting_of levels)"
      using i by simp
  next
    fix st :: "memory \<times> (Price \<times> PriceLevel) list \<times> 64 word \<times> 'a"
    assume j: "rem_inv S h0 st \<and> set (resting_of (fst (snd st))) \<subseteq> set (resting_of levels)"
      and c: "side_cond a st"
    from j sub have s1: "set (resting_of (fst (snd st))) \<subseteq> S" by blast
    from j na have n1: "a \<notin> set (resting_of (fst (snd st)))" by blast
    from j have r1: "rem_inv S h0 st" by simp
    from sweep_level_rem_inv [OF aS s1 n1 r1 c, of cb s] sweep_level_resting [OF c, of cb s] j
    show "rem_inv S h0 (sweep_level cb s a st)
          \<and> set (resting_of (fst (snd (sweep_level cb s a st)))) \<subseteq> set (resting_of levels)"
      by blast
  qed
  then show ?thesis by simp
qed

lemma match_order_rem:
  assumes na: "a \<notin> set (resting b)"
    and nn: "\<forall>x \<in> insert a (set (resting b)). 0 \<le> remaining (h x)"
    and m: "match_order cb a (h, b, env) = (h1, b1, env1)"
  shows "\<forall>x \<in> insert a (set (resting b)).
           0 \<le> remaining (h1 x) \<and> remaining (h1 x) \<le> remaining (h x)"
proof -
  define S where "S = insert a (set (resting b))"
  have aS: "a \<in> S" by (simp add: S_def)
  have i: "rem_inv S h (h, ls, n, env)" for ls :: "(Price \<times> PriceLevel) list" and n :: "64 word"
    using nn by (simp add: rem_inv_def S_def)
  show ?thesis
  proof (cases "side (h a) = BUY")
    case True
    obtain h' ls n' e'
      where ms: "match_side cb BUY a (h, asks b, total_trades b, env) = (h', ls, n', e')"
      by (cases "match_side cb BUY a (h, asks b, total_trades b, env)")
    have sub: "set (resting_of (asks b)) \<subseteq> S" by (auto simp: S_def resting_def)
    from na have n1: "a \<notin> set (resting_of (asks b))" by (simp add: resting_def)
    from match_side_rem_inv [OF aS sub n1 i, of cb BUY "total_trades b"] ms
    have r: "rem_inv S h (h', ls, n', e')" by simp
    from match_order_BUY [OF True ms] m
    have "\<And>x. remaining (h1 x) = remaining (h' x)" by (auto simp: remaining_def)
    with r show ?thesis by (simp add: rem_inv_def S_def)
  next
    case False
    obtain h' ls n' e'
      where ms: "match_side cb SELL a (h, bids b, total_trades b, env) = (h', ls, n', e')"
      by (cases "match_side cb SELL a (h, bids b, total_trades b, env)")
    have sub: "set (resting_of (bids b)) \<subseteq> S" by (auto simp: S_def resting_def)
    from na have n1: "a \<notin> set (resting_of (bids b))" by (simp add: resting_def)
    from match_side_rem_inv [OF aS sub n1 i, of cb SELL "total_trades b"] ms
    have r: "rem_inv S h (h', ls, n', e')" by simp
    from match_order_SELL [OF False ms] m
    have "\<And>x. remaining (h1 x) = remaining (h' x)" by (auto simp: remaining_def)
    with r show ?thesis by (simp add: rem_inv_def S_def)
  qed
qed

lemma queue_quantity_sum:
  "distinct q \<Longrightarrow> queue_quantity h q = (\<Sum>x \<in> set q. remaining (h x))"
  unfolding queue_quantity_def by (rule sum_list_distinct_conv_sum_set)

lemma queue_quantity_append:
  "queue_quantity h (q @ r) = queue_quantity h q + queue_quantity h r"
  by (simp add: queue_quantity_def)

lemma open_quantity_le:
  assumes d: "distinct q" and d': "distinct q'" and na: "a \<notin> set q"
    and sub: "set q' \<subseteq> insert a (set q)"
    and r: "\<forall>x \<in> insert a (set q). 0 \<le> remaining (h' x) \<and> remaining (h' x) \<le> remaining (h x)"
  shows "queue_quantity h' q' \<le> queue_quantity h q + remaining (h a)"
proof -
  have "queue_quantity h' q' = (\<Sum>x \<in> set q'. remaining (h' x))"
    using d' by (rule queue_quantity_sum)
  also have "\<dots> \<le> (\<Sum>x \<in> insert a (set q). remaining (h' x))"
    using sub r by (intro sum_mono2) auto
  also have "\<dots> \<le> (\<Sum>x \<in> insert a (set q). remaining (h x))"
    using r by (intro sum_mono) auto
  also have "\<dots> = remaining (h a) + (\<Sum>x \<in> set q. remaining (h x))"
    using na by simp
  also have "\<dots> = queue_quantity h q + remaining (h a)"
    using d by (simp add: queue_quantity_sum)
  finally show ?thesis .
qed

text \<open>
  \<open>book_in_range\<close>: no resting order is filled beyond its quantity, and the open quantity
  of the whole book is below \<open>2^63\<close>. Then every sum that the code forms in a \<open>Quantity\<close>
  (a level's \<open>total_quantity\<close>, \<open>bid_volume()\<close>, \<open>ask_volume()\<close>) is an \<open>int64_t\<close> value.
\<close>

definition book_in_range :: "memory \<Rightarrow> OrderBook \<Rightarrow> bool" where
  "book_in_range h b =
     ((\<forall>c \<in> set (resting b). 0 \<le> remaining (h c)) \<and> queue_quantity h (resting b) < 2 ^ 63)"

definition totals_in_int64 :: "OrderBook \<Rightarrow> bool" where
  "totals_in_int64 b =
     ((\<forall>(k, level) \<in> set (bids b) \<union> set (asks b). in_int64 (total_quantity level))
      \<and> in_int64 (bid_volume b) \<and> in_int64 (ask_volume b))"

lemma distinct_resting_of:
  "distinct (resting_of levels) \<Longrightarrow> (k, level) \<in> set levels \<Longrightarrow> distinct (orders level)"
  by (induction levels) auto

lemma queue_quantity_nonneg:
  "\<forall>c \<in> set q. 0 \<le> remaining (h c) \<Longrightarrow> 0 \<le> queue_quantity h q"
  unfolding queue_quantity_def by (rule sum_list_nonneg) auto

lemma queue_quantity_mono:
  assumes "distinct q" "distinct q'" "set q' \<subseteq> set q" "\<forall>c \<in> set q. 0 \<le> remaining (h c)"
  shows "queue_quantity h q' \<le> queue_quantity h q"
proof -
  from assms(3,4) have "(\<Sum>x \<in> set q'. remaining (h x)) \<le> (\<Sum>x \<in> set q. remaining (h x))"
    by (intro sum_mono2) auto
  with assms(1,2) show ?thesis by (simp add: queue_quantity_sum)
qed

lemma fold_volume:
  "fold (\<lambda>(p, level) vol. vol + total_quantity level) ls v
     = v + (\<Sum>(p, level)\<leftarrow>ls. total_quantity level)"
  by (induction ls arbitrary: v) (auto simp: split_def)

lemma levels_total:
  "list_all (level_ok h) ls \<Longrightarrow>
   (\<Sum>(p, level)\<leftarrow>ls. total_quantity level) = queue_quantity h (resting_of ls)"
  by (induction ls) (auto simp: level_ok_def queue_quantity_append)

lemma book_volumes:
  assumes "book_wf h b"
  shows "bid_volume b = queue_quantity h (resting_of (bids b))"
    and "ask_volume b = queue_quantity h (resting_of (asks b))"
  using assms
  by (simp_all add: bid_volume_def ask_volume_def fold_volume levels_total book_wf_def)

lemma book_totals_in_int64:
  assumes wf: "book_wf h b" and r: "book_in_range h b"
  shows "totals_in_int64 b"
proof -
  from r have nn: "\<forall>c \<in> set (resting b). 0 \<le> remaining (h c)"
    and bd: "queue_quantity h (resting b) < 2 ^ 63"
    by (simp_all add: book_in_range_def)
  from wf have d: "distinct (resting b)" by (simp add: book_wf_def)
  then have db: "distinct (resting_of (bids b))" and da: "distinct (resting_of (asks b))"
    by (simp_all add: resting_def)
  have part: "0 \<le> queue_quantity h q \<and> queue_quantity h q < 2 ^ 63"
    if "distinct q" "set q \<subseteq> set (resting b)" for q
  proof -
    from that nn have "0 \<le> queue_quantity h q" by (intro queue_quantity_nonneg) auto
    moreover from queue_quantity_mono [OF d that nn] bd have "queue_quantity h q < 2 ^ 63"
      by simp
    ultimately show ?thesis by simp
  qed
  have lv: "in_int64 (total_quantity level)"
    if m: "(k, level) \<in> set (bids b) \<union> set (asks b)" for k level
  proof -
    from m wf have ok: "level_ok h (k, level)" by (auto simp: book_wf_def list_all_iff)
    from m db da have dl: "distinct (orders level)" by (auto dest: distinct_resting_of)
    from m have "set (orders level) \<subseteq> set (resting b)"
      by (auto simp: resting_def dest: resting_of_mem)
    from part [OF dl this] ok show ?thesis by (simp add: in_int64_def level_ok_def)
  qed
  from part [OF db] have "in_int64 (bid_volume b)"
    by (simp add: book_volumes [OF wf] in_int64_def resting_def)
  moreover from part [OF da] have "in_int64 (ask_volume b)"
    by (simp add: book_volumes [OF wf] in_int64_def resting_def)
  ultimately show ?thesis using lv by (auto simp: totals_in_int64_def)
qed

lemma book_in_range_init: "book_in_range h (OrderBook_init nm)"
  by (simp add: book_in_range_def resting_def OrderBook_init_def)

lemma add_order_in_range:
  assumes wf: "book_wf h b" and r: "book_in_range h b"
    and na: "a \<notin> set (resting b)" and ra: "0 \<le> remaining (h a)"
    and bd: "queue_quantity h (resting b) + remaining (h a) < 2 ^ 63"
    and ao: "add_order cb a (h, b, env) = (h', b', env')"
  shows "book_in_range h' b'"
proof -
  obtain h1 b1 env1 where m: "match_order cb a (h, b, env) = (h1, b1, env1)"
    by (cases "match_order cb a (h, b, env)")
  from r ra have nn: "\<forall>x \<in> insert a (set (resting b)). 0 \<le> remaining (h x)"
    by (simp add: book_in_range_def)
  note mr = match_order_rem [OF na nn m]
  note c = add_order_cases [OF m, unfolded ao]
  have "\<And>x. remaining (h' x) = remaining (h1 x)"
    using c by (auto simp: remaining_def split: if_splits)
  with mr have r': "\<forall>x \<in> insert a (set (resting b)).
           0 \<le> remaining (h' x) \<and> remaining (h' x) \<le> remaining (h x)" by simp
  from add_order_resting [of cb a h b env] ao
  have sub: "set (resting b') \<subseteq> insert a (set (resting b))" by simp
  from add_order_wf [OF wf na ao] have d': "distinct (resting b')" by (simp add: book_wf_def)
  from wf have d: "distinct (resting b)" by (simp add: book_wf_def)
  from open_quantity_le [OF d d' na sub r'] bd
  have "queue_quantity h' (resting b') < 2 ^ 63" by simp
  moreover from r' sub have "\<forall>c \<in> set (resting b'). 0 \<le> remaining (h' c)" by blast
  ultimately show ?thesis by (simp add: book_in_range_def)
qed

lemma process_market_order_in_range:
  assumes wf: "book_wf h b" and r: "book_in_range h b"
    and na: "a \<notin> set (resting b)" and ra: "0 \<le> remaining (h a)"
    and bd: "queue_quantity h (resting b) + remaining (h a) < 2 ^ 63"
    and po: "process_market_order cb a (h, b, env) = (h', b', env')"
  shows "book_in_range h' b'"
proof -
  obtain h1 b1 env1 where m: "match_order cb a (h, b, env) = (h1, b1, env1)"
    by (cases "match_order cb a (h, b, env)")
  from r ra have nn: "\<forall>x \<in> insert a (set (resting b)). 0 \<le> remaining (h x)"
    by (simp add: book_in_range_def)
  note mr = match_order_rem [OF na nn m]
  have "\<And>x. remaining (h' x) = remaining (h1 x)"
    using po m by (auto simp: process_market_order_def remaining_def split: if_splits)
  with mr have r': "\<forall>x \<in> insert a (set (resting b)).
           0 \<le> remaining (h' x) \<and> remaining (h' x) \<le> remaining (h x)" by simp
  from process_market_order_wf [OF wf na po]
  have d': "distinct (resting b')" and sub: "set (resting b') \<subseteq> insert a (set (resting b))"
    by (auto simp: book_wf_def)
  from wf have d: "distinct (resting b)" by (simp add: book_wf_def)
  from open_quantity_le [OF d d' na sub r'] bd
  have "queue_quantity h' (resting b') < 2 ^ 63" by simp
  moreover from r' sub have "\<forall>c \<in> set (resting b'). 0 \<le> remaining (h' c)" by blast
  ultimately show ?thesis by (simp add: book_in_range_def)
qed

text \<open>
  C5 (as the code has it). Let the book be well formed and in range, and let \<open>add_order\<close>
  or \<open>process_market_order\<close> receive an order that is not already resting in the book, is
  not filled beyond its quantity, and whose open quantity added to that of the book stays
  below \<open>2^63\<close>. Then the book is again well formed and in range, the invariant of the
  specification holds (every level's \<open>total_quantity\<close> is the sum of \<open>quantity - filled\<close>
  over its queue, no level is empty, the book is not crossed), and every level total and
  both volumes are \<open>int64_t\<close> values: no sum has overflowed. \<open>cancel_order\<close> changes
  nothing, and the empty book is well formed and in range.
\<close>

theorem book_invariant_preserved:
  assumes "book_wf h b" and "book_in_range h b"
    and "a \<notin> set (resting b)" and "0 \<le> remaining (h a)"
    and "queue_quantity h (resting b) + remaining (h a) < 2 ^ 63"
  shows "(case add_order cb a (h, b, env) of (h', b', env') \<Rightarrow>
            book_wf h' b' \<and> book_in_range h' b' \<and> book_invariant h' b' \<and> totals_in_int64 b')
         \<and> (case process_market_order cb a (h, b, env) of (h', b', env') \<Rightarrow>
            book_wf h' b' \<and> book_in_range h' b' \<and> book_invariant h' b' \<and> totals_in_int64 b')
         \<and> (case cancel_order i (h, b, env) of (h', b', env') \<Rightarrow>
            book_wf h' b' \<and> book_in_range h' b' \<and> book_invariant h' b' \<and> totals_in_int64 b')
         \<and> book_wf h0 (OrderBook_init nm) \<and> book_in_range h0 (OrderBook_init nm)
         \<and> book_invariant h0 (OrderBook_init nm) \<and> totals_in_int64 (OrderBook_init nm)"
proof -
  obtain h1 b1 e1 where 1: "add_order cb a (h, b, env) = (h1, b1, e1)"
    by (cases "add_order cb a (h, b, env)")
  obtain h2 b2 e2 where 2: "process_market_order cb a (h, b, env) = (h2, b2, e2)"
    by (cases "process_market_order cb a (h, b, env)")
  from add_order_wf [OF assms(1,3) 1] have w1: "book_wf h1 b1" .
  from process_market_order_wf [OF assms(1,3) 2] have w2: "book_wf h2 b2" by simp
  from add_order_in_range [OF assms 1] have r1: "book_in_range h1 b1" .
  from process_market_order_in_range [OF assms 2] have r2: "book_in_range h2 b2" .
  note w0 = book_wf_init [of h0 nm] and r0 = book_in_range_init [of h0 nm]
  from w1 r1 have "book_wf h1 b1 \<and> book_in_range h1 b1 \<and> book_invariant h1 b1
                   \<and> totals_in_int64 b1"
    by (simp add: book_wf_invariant book_totals_in_int64)
  moreover from w2 r2 have "book_wf h2 b2 \<and> book_in_range h2 b2 \<and> book_invariant h2 b2
                   \<and> totals_in_int64 b2"
    by (simp add: book_wf_invariant book_totals_in_int64)
  moreover from assms(1,2) have "book_wf h b \<and> book_in_range h b \<and> book_invariant h b
                   \<and> totals_in_int64 b"
    by (simp add: book_wf_invariant book_totals_in_int64)
  moreover from w0 r0 have "book_wf h0 (OrderBook_init nm) \<and> book_in_range h0 (OrderBook_init nm)
         \<and> book_invariant h0 (OrderBook_init nm) \<and> totals_in_int64 (OrderBook_init nm)"
    by (simp add: book_wf_invariant book_totals_in_int64)
  ultimately show ?thesis
    by (simp add: 1 2 cancel_order_def)
qed

text \<open>
  The first steps of \<open>test_partial_fill_volume\<close>: a SELL of 100 rests at 1000000 and a BUY
  of 30 at that price arrives; 70 stay on the ask side.
\<close>

theorem book_invariant_witness:
  "book_wf partial_fill_memory partial_fill_book
   \<and> book_in_range partial_fill_memory partial_fill_book
   \<and> Slot 0 2 \<notin> set (resting partial_fill_book)
   \<and> 0 \<le> remaining (partial_fill_memory (Slot 0 2))
   \<and> queue_quantity partial_fill_memory (resting partial_fill_book)
        + remaining (partial_fill_memory (Slot 0 2)) < 2 ^ 63
   \<and> (case add_order (Some record_trade) (Slot 0 2) (partial_fill_memory, partial_fill_book, [])
       of (h', b', trades) \<Rightarrow>
            book_invariant h' b' \<and> totals_in_int64 b' \<and> ask_volume b' = 70 \<and> bids b' = [])"
proof -
  have w: "book_wf partial_fill_memory partial_fill_book"
    by (simp add: book_wf_def partial_fill_book_def partial_fill_memory_def resting_def
          level_ok_def remaining_def mk_order_def)
  have g: "book_in_range partial_fill_memory partial_fill_book"
    by (simp add: book_in_range_def partial_fill_book_def partial_fill_memory_def resting_def
          remaining_def mk_order_def)
  have r: "Slot 0 2 \<notin> set (resting partial_fill_book)"
    by (simp add: partial_fill_book_def resting_def)
  have p: "0 \<le> remaining (partial_fill_memory (Slot 0 2))"
    by (simp add: partial_fill_memory_def remaining_def mk_order_def)
  have q: "queue_quantity partial_fill_memory (resting partial_fill_book)
             + remaining (partial_fill_memory (Slot 0 2)) < 2 ^ 63"
    by (simp add: partial_fill_book_def partial_fill_memory_def resting_def
          remaining_def mk_order_def)
  have e: "(case add_order (Some record_trade) (Slot 0 2)
                  (partial_fill_memory, partial_fill_book, [])
            of (h', b', trades) \<Rightarrow> ask_volume b' = 70 \<and> bids b' = [])"
    by (simp add: partial_fill_book_def partial_fill_memory_def zero_memory_def ask_volume_def
          book_eval)
  from book_invariant_preserved [OF w g r p q, of "Some record_trade" "[]"] w g r p q e
  show ?thesis by (auto split: prod.splits)
qed

text \<open>
  Two calls of \<open>add_order\<close> with the same SELL of 100, before a BUY of 50 at its price; and
  two SELL orders of \<open>2^63 - 1\<close> at one price. \<open>open_quantities\<close> lists, level by level, the
  sum of \<open>quantity - filled\<close> over the queue.
\<close>

definition twice_memory :: memory where
  "twice_memory =
     (zero_memory(Slot 0 1 := mk_order 1 1000000 100 1000 SELL LIMIT 1))
       (Slot 0 2 := mk_order 2 1000000 50 2000 BUY LIMIT 2)"

definition same_order_twice :: "memory \<times> OrderBook \<times> Trade list" where
  "same_order_twice =
     (let cb = Some record_trade;
          (h1, b1, e1) = add_order cb (Slot 0 1) (twice_memory, OrderBook_init ''TEST'', [])
      in add_order cb (Slot 0 1) (h1, b1, e1))"

definition large_memory :: memory where
  "large_memory =
     (zero_memory(Slot 0 1 := mk_order 1 1000000 9223372036854775807 1000 SELL LIMIT 1))
       (Slot 0 2 := mk_order 2 1000000 9223372036854775807 2000 SELL LIMIT 2)"

definition two_large_orders :: "memory \<times> OrderBook \<times> Trade list" where
  "two_large_orders =
     (let cb = Some record_trade;
          (h1, b1, e1) = add_order cb (Slot 0 1) (large_memory, OrderBook_init ''TEST'', [])
      in add_order cb (Slot 0 2) (h1, b1, e1))"

definition open_quantities :: "memory \<Rightarrow> (Price \<times> PriceLevel) list \<Rightarrow> Quantity list" where
  "open_quantities h levels =
     map (\<lambda>(k, level). \<Sum>c\<leftarrow>orders level. quantity (h c) - filled (h c)) levels"

lemma same_order_twice_eq:
  "same_order_twice =
     (twice_memory,
      \<lparr>book_symbol = ''TEST'', bids = [],
       asks = [(1000000, \<lparr>level_price = 1000000, orders = [Slot 0 1, Slot 0 1],
                          total_quantity = 200\<rparr>)],
       total_trades = 0\<rparr>, [])"
  by (simp add: same_order_twice_def twice_memory_def zero_memory_def book_eval fun_eq_iff)

text \<open>
  C5 as stated fails. An order passed to \<open>add_order\<close> a second time rests twice in its
  level; the invariant as worded still holds then, but the next order that trades with
  it, itself not resting, leaves the level with \<open>total_quantity = 150\<close> over open quantities
  that sum to 100. And two orders of quantity \<open>2^63 - 1\<close> at one price have open quantities
  that sum to \<open>2^64 - 2\<close>, which no \<open>int64_t\<close> total can equal.
\<close>

theorem book_invariant_broken:
  "(case same_order_twice of (h, b, trades) \<Rightarrow>
      book_invariant h b \<and> book_in_range h b \<and> Slot 0 2 \<notin> set (resting b)
      \<and> filled (h (Slot 0 2)) = 0 \<and> quantity (h (Slot 0 2)) = 50
      \<and> (case add_order (Some record_trade) (Slot 0 2) (h, b, trades) of (h', b', trades') \<Rightarrow>
            \<not> book_invariant h' b'
            \<and> map (total_quantity \<circ> snd) (asks b') = [150]
            \<and> open_quantities h' (asks b') = [100]))
   \<and> (case two_large_orders of (h, b, trades) \<Rightarrow>
         open_quantities h (asks b) = [18446744073709551614])
   \<and> \<not> in_int64 18446744073709551614"
proof -
  have 1: "(case same_order_twice of (h, b, trades) \<Rightarrow>
      book_invariant h b \<and> book_in_range h b \<and> Slot 0 2 \<notin> set (resting b)
      \<and> filled (h (Slot 0 2)) = 0 \<and> quantity (h (Slot 0 2)) = 50
      \<and> (case add_order (Some record_trade) (Slot 0 2) (h, b, trades) of (h', b', trades') \<Rightarrow>
            \<not> book_invariant h' b'
            \<and> map (total_quantity \<circ> snd) (asks b') = [150]
            \<and> open_quantities h' (asks b') = [100]))"
    unfolding same_order_twice_eq
    by (simp add: book_invariant_def book_in_range_def resting_def open_quantities_def
          remaining_def twice_memory_def zero_memory_def book_eval)
  have 2: "(case two_large_orders of (h, b, trades) \<Rightarrow>
         open_quantities h (asks b) = [18446744073709551614])"
    by (simp add: two_large_orders_def large_memory_def open_quantities_def zero_memory_def
          book_eval)
  have 3: "\<not> in_int64 18446744073709551614" by (simp add: in_int64_def)
  show ?thesis by (rule conjI [OF 1 conjI [OF 2 3]])
qed

end
